theory Spec2Isabelle
  imports Main "HOL-Library.Word"
begin

unbundle bit_operations_syntax

section \<open>The external equation interface of GAMS: geheader.h and mylib.cpp\<close>

text \<open>
  The control vector \<open>icntr\<close> is a C array of \<open>int\<close>. Each cell is a 32-bit word; \<open>sint\<close>
  reads its value. \<open>sizeof(int)\<close> is 4, and the byte with address \<open>4 * i + k\<close>
  (\<open>k < 4\<close>) of the array is bits \<open>8 * k .. 8 * k + 7\<close> of cell \<open>i\<close> (little-endian, as on
  the x86 and ARM targets the module is built for).

  Every array access of the source is bounds-checked in the model: an index outside the
  array gives \<open>Inl OutOfBounds\<close>. C's \<open>int\<close> arithmetic is done on mathematical integers, and
  a result that does not fit in 32 bits, which C leaves undefined (or, for the conversion
  of a \<open>size_t\<close>, implementation-defined), gives \<open>Inl IntOverflow\<close>.
\<close>

type_synonym cint = "32 word"

datatype fault = OutOfBounds | IntOverflow

definition bnd :: "fault + 'a \<Rightarrow> ('a \<Rightarrow> fault + 'b) \<Rightarrow> fault + 'b" where
  "bnd m k = (case m of Inl e \<Rightarrow> Inl e | Inr v \<Rightarrow> k v)"

definition c_int :: "int \<Rightarrow> fault + int" where
  "c_int v = (if - (2 ^ 31) \<le> v \<and> v < 2 ^ 31 then Inr v else Inl IntOverflow)"

text \<open>\<open>a[i]\<close> as an rvalue and \<open>a[i] = v\<close>, on any array and on an array of \<open>int\<close>.\<close>

definition ld :: "'a list \<Rightarrow> int \<Rightarrow> fault + 'a" where
  "ld a i = (if 0 \<le> i \<and> i < int (length a) then Inr (a ! nat i) else Inl OutOfBounds)"

definition st :: "'a list \<Rightarrow> int \<Rightarrow> 'a \<Rightarrow> fault + 'a list" where
  "st a i v = (if 0 \<le> i \<and> i < int (length a) then Inr (a[nat i := v]) else Inl OutOfBounds)"

definition rd :: "cint list \<Rightarrow> int \<Rightarrow> fault + int" where
  "rd a i = bnd (ld a i) (\<lambda>w. Inr (sint w))"

definition wr :: "cint list \<Rightarrow> int \<Rightarrow> int \<Rightarrow> fault + cint list" where
  "wr a i v = st a i (word_of_int v)"

text \<open>C's integer division truncates towards zero.\<close>

definition c_div :: "int \<Rightarrow> int \<Rightarrow> int" where
  "c_div a b = sgn a * sgn b * (\<bar>a\<bar> div \<bar>b\<bar>)"

subsection \<open>Constants of geheader.h\<close>

definition TOSTAT :: int where "TOSTAT = 1"
definition TOLOG :: int where "TOLOG = 2"

definition DOINIT :: int where "DOINIT = 1"
definition DOTERM :: int where "DOTERM = 2"
definition DOEVAL :: int where "DOEVAL = 3"
definition DOCONSTDERIV :: int where "DOCONSTDERIV = 4"
definition DOHVPROD :: int where "DOHVPROD = 5"

definition I_Length :: int where "I_Length = 0"
definition I_Neq :: int where "I_Neq = 1"
definition I_Nvar :: int where "I_Nvar = 2"
definition I_Nz :: int where "I_Nz = 3"
definition I_Mode :: int where "I_Mode = 4"
definition I_Eqno :: int where "I_Eqno = 5"
definition I_Dofunc :: int where "I_Dofunc = 6"
definition I_Dodrv :: int where "I_Dodrv = 7"
definition I_Newpt :: int where "I_Newpt = 8"
definition I_Getfil :: int where "I_Getfil = 9"
definition I_Smode :: int where "I_Smode = 12"
definition I_ConstDeriv :: int where "I_ConstDeriv = 13"
definition I_HVProd :: int where "I_HVProd = 14"
definition I_BufStrt :: int where "I_BufStrt = 25"
definition I_BufLen :: int where "I_BufLen = 26"
definition I_Debug :: int where "I_Debug = 27"

text \<open>\<open>#define INTS(x) ((((x)-1) / (int)sizeof(int)) + 1)\<close>\<close>

definition INTS :: "int \<Rightarrow> int" where
  "INTS x = c_div (x - 1) 4 + 1"

subsection \<open>C strings and bytes\<close>

text \<open>
  A \<open>char *\<close> argument is the list of the bytes at that address; the string it denotes
  ends before the first null byte (or at the end of the list, where the terminator is).
\<close>

definition NUL :: char where "NUL = CHR 0x00"

definition cstr :: "string \<Rightarrow> string" where
  "cstr s = takeWhile (\<lambda>c. c \<noteq> NUL) s"

definition strlen :: "string \<Rightarrow> nat" where
  "strlen s = length (cstr s)"

definition get_byte :: "cint \<Rightarrow> nat \<Rightarrow> char" where
  "get_byte w k = char_of (unat (drop_bit (8 * k) w))"

definition set_byte :: "cint \<Rightarrow> nat \<Rightarrow> char \<Rightarrow> cint" where
  "set_byte w k c = (w AND NOT (push_bit (8 * k) (mask 8))) OR push_bit (8 * k) (of_char c)"

text \<open>The bytes \<open>p, p + 1, ...\<close> of the array, as \<open>(char *) icntr\<close> sees them.\<close>

fun store_bytes :: "cint list \<Rightarrow> nat \<Rightarrow> string \<Rightarrow> cint list" where
  "store_bytes m p [] = m"
| "store_bytes m p (c # cs) =
     store_bytes (m[p div 4 := set_byte (m ! (p div 4)) (p mod 4) c]) (Suc p) cs"

definition load_bytes :: "cint list \<Rightarrow> nat \<Rightarrow> nat \<Rightarrow> string" where
  "load_bytes m p n = map (\<lambda>q. get_byte (m ! (q div 4)) (q mod 4)) [p ..< p + n]"

text \<open>
  \<open>memcpy ((char *)(icntr + start), line, n)\<close>: the \<open>n\<close> bytes read must lie in \<open>line\<close> and
  the \<open>n\<close> bytes written must lie in the array.
\<close>

definition memcpy :: "cint list \<Rightarrow> int \<Rightarrow> string \<Rightarrow> int \<Rightarrow> fault + cint list" where
  "memcpy icntr start line n =
     (if n < 0 \<or> int (length line) < n then Inl OutOfBounds
      else if start < 0 \<or> 4 * int (length icntr) < 4 * start + n then Inl OutOfBounds
      else Inr (store_bytes icntr (nat (4 * start)) (take (nat n) line)))"

subsection \<open>The debug sink\<close>

text \<open>
  \<open>static FILE *fpDebug\<close> and the files it reaches are the only state outside the
  arguments. \<open>fpDebug\<close> is \<open>None\<close> for \<open>NULL\<close> and otherwise holds the lines written to
  \<open>debugext.txt\<close> so far; \<open>fopen_ok\<close> says whether \<open>fopen\<close> would succeed.
\<close>

record world =
  fpDebug :: "string list option"
  fopen_ok :: bool
  stdout :: "string list"

definition debug_mirror :: "world \<Rightarrow> string \<Rightarrow> int \<Rightarrow> world" where
  "debug_mirror W line mode =
     (let W1 = (if fpDebug W = None \<and> fopen_ok W then W\<lparr>fpDebug := Some []\<rparr> else W)
      in case fpDebug W1 of
           None \<Rightarrow> W1\<lparr>stdout := stdout W1 @ [''Can't create debugext.txt'']\<rparr>
         | Some ls \<Rightarrow>
             (let ls1 = (if mode = TOSTAT then ls @ [''Stat: '' @ cstr line] else ls);
                  ls2 = (if mode = TOLOG then ls1 @ ['' Log: '' @ cstr line] else ls1)
              in W1\<lparr>fpDebug := Some ls2\<rparr>))"

subsection \<open>GEwrite, GEstat, GElog\<close>

definition GEwrite :: "world \<Rightarrow> cint list \<Rightarrow> string \<Rightarrow> int \<Rightarrow> fault + world \<times> cint list" where
  "GEwrite W icntr line mode =
     bnd (rd icntr I_Debug) (\<lambda>dbg.
     let W1 = (if dbg \<noteq> 0 then debug_mirror W line mode else W) in
     bnd (rd icntr I_BufStrt) (\<lambda>bs.
     bnd (rd icntr I_BufLen) (\<lambda>bl.
     bnd (c_int (bs + bl)) (\<lambda>s0.
     bnd (c_int (s0 + 1)) (\<lambda>startMsg.
     bnd (rd icntr I_Length) (\<lambda>len.
     bnd (c_int (len - startMsg)) (\<lambda>ints2write.
     if ints2write \<le> 0 then Inr (W1, icntr)
     else
     bnd (c_int (int (strlen line))) (\<lambda>n0.
     let n1 = (if n0 > 256 then 256 else n0) in
     bnd (if INTS n1 > ints2write then c_int (ints2write * 4) else Inr n1) (\<lambda>nBytes.
     bnd (memcpy icntr startMsg line nBytes) (\<lambda>m1.
     bnd (wr m1 (startMsg - 2) nBytes) (\<lambda>m2.
     bnd (wr m2 (startMsg - 1) mode) (\<lambda>m3.
     bnd (rd m3 I_BufLen) (\<lambda>bl'.
     bnd (c_int (bl' + (2 + INTS nBytes))) (\<lambda>new.
     bnd (wr m3 I_BufLen new) (\<lambda>m4.
     Inr (W1, m4))))))))))))))))"

definition GEstat :: "world \<Rightarrow> cint list \<Rightarrow> string \<Rightarrow> fault + world \<times> cint list" where
  "GEstat W icntr line = GEwrite W icntr line TOSTAT"

definition GElog :: "world \<Rightarrow> cint list \<Rightarrow> string \<Rightarrow> fault + world \<times> cint list" where
  "GElog W icntr line = GEwrite W icntr line TOLOG"

text \<open>
  The same function on a machine whose \<open>int\<close> arithmetic wraps around (two's complement, as
  the processors the module is built for compute it): every result is reduced to 32 bits
  instead of being checked.
\<close>

definition c_wrap :: "int \<Rightarrow> fault + int" where
  "c_wrap v = Inr (sint (word_of_int v :: cint))"

definition GEwrite_wrap :: "world \<Rightarrow> cint list \<Rightarrow> string \<Rightarrow> int \<Rightarrow> fault + world \<times> cint list" where
  "GEwrite_wrap W icntr line mode =
     bnd (rd icntr I_Debug) (\<lambda>dbg.
     let W1 = (if dbg \<noteq> 0 then debug_mirror W line mode else W) in
     bnd (rd icntr I_BufStrt) (\<lambda>bs.
     bnd (rd icntr I_BufLen) (\<lambda>bl.
     bnd (c_wrap (bs + bl)) (\<lambda>s0.
     bnd (c_wrap (s0 + 1)) (\<lambda>startMsg.
     bnd (rd icntr I_Length) (\<lambda>len.
     bnd (c_wrap (len - startMsg)) (\<lambda>ints2write.
     if ints2write \<le> 0 then Inr (W1, icntr)
     else
     bnd (c_wrap (int (strlen line))) (\<lambda>n0.
     let n1 = (if n0 > 256 then 256 else n0) in
     bnd (if INTS n1 > ints2write then c_wrap (ints2write * 4) else Inr n1) (\<lambda>nBytes.
     bnd (memcpy icntr startMsg line nBytes) (\<lambda>m1.
     bnd (wr m1 (startMsg - 2) nBytes) (\<lambda>m2.
     bnd (wr m2 (startMsg - 1) mode) (\<lambda>m3.
     bnd (rd m3 I_BufLen) (\<lambda>bl'.
     bnd (c_wrap (bl' + (2 + INTS nBytes))) (\<lambda>new.
     bnd (wr m3 I_BufLen new) (\<lambda>m4.
     Inr (W1, m4))))))))))))))))"

subsection \<open>GEname\<close>

text \<open>
  \<open>strncpy (buf, from, n)\<close> copies the string at \<open>from\<close>, at most \<open>n\<close> bytes of it, and fills
  with null bytes up to \<open>n\<close>. \<open>from\<close> is the list of the bytes between the source address
  and the end of the array it points into: reading comes to its end only if no null
  byte stops it before.
\<close>

definition strncpy :: "string \<Rightarrow> string \<Rightarrow> int \<Rightarrow> fault + string" where
  "strncpy buf from n =
     (if n < 0 \<or> int (length buf) < n then Inl OutOfBounds
      else if int (length from) < n \<and> NUL \<notin> set from then Inl OutOfBounds
      else let s = cstr (take (nat n) from)
           in Inr (s @ replicate (nat n - length s) NUL @ drop (nat n) buf))"

text \<open>
  \<open>(char *) (icntr + icntr[10] - 1)\<close>: the statement only forms the address. \<open>from\<close> is the
  list of the bytes that can be read there, those from the address to the end of the
  array, and no byte when the address is not in the array; \<open>strncpy\<close> with the count 0
  reads none.
\<close>

definition GEname :: "cint list \<Rightarrow> string \<Rightarrow> int \<Rightarrow> fault + int \<times> string" where
  "GEname icntr buf bufLen =
     bnd (rd icntr 11) (\<lambda>n0.
     if n0 < 0 then Inr (- 1, buf)
     else
     let nChars = (if n0 > bufLen then bufLen else n0) in
     bnd (rd icntr 10) (\<lambda>off.
     let q = 4 * (off - 1);
         from = (if 0 \<le> q \<and> q \<le> 4 * int (length icntr)
                 then load_bytes icntr (nat q) (4 * length icntr - nat q) else []) in
     bnd (strncpy buf from nChars) (\<lambda>b1.
     if nChars < bufLen then bnd (st b1 nChars NUL) (\<lambda>b2. Inr (nChars, b2))
     else Inr (nChars, b1))))"

subsection \<open>gefunc of mylib.cpp\<close>

text \<open>
  \<open>double\<close> is the type \<open>'r\<close>, with its subtraction, negation and \<open>1\<close>; \<open>std::sin\<close> and
  \<open>std::cos\<close> are the functions \<open>std_sin\<close> and \<open>std_cos\<close> on it. The arguments \<open>x\<close> and \<open>d\<close>
  are arrays, \<open>f\<close> is the value at the pointer \<open>f\<close>; the callback \<open>msgcb\<close> is not used.
  The result holds what the call leaves behind and the status it returns.
\<close>

record 'r result =
  world_of :: world
  icntr_of :: "cint list"
  f_of :: 'r
  d_of :: "'r list"
  rc_of :: int

definition gefunc_init :: "world \<Rightarrow> cint list \<Rightarrow> 'r \<Rightarrow> 'r list \<Rightarrow> fault + 'r result" where
  "gefunc_init W icntr f d =
     (let neq = 2; nvar = 4; nz = 4 in
      bnd (rd icntr I_Neq) (\<lambda>a.
      if neq \<noteq> a then
        bnd (GElog W icntr ''--- Number of equations do not match'') (\<lambda>(W1, ic1).
        Inr \<lparr>world_of = W1, icntr_of = ic1, f_of = f, d_of = d, rc_of = 2\<rparr>)
      else
      bnd (rd icntr I_Nvar) (\<lambda>b.
      if nvar \<noteq> b then
        bnd (GElog W icntr ''--- Number of variables do not match'') (\<lambda>(W1, ic1).
        Inr \<lparr>world_of = W1, icntr_of = ic1, f_of = f, d_of = d, rc_of = 2\<rparr>)
      else
      bnd (rd icntr I_Nz) (\<lambda>c.
      if nz \<noteq> c then
        bnd (GElog W icntr ''--- Number of differentibles do not match'') (\<lambda>(W1, ic1).
        Inr \<lparr>world_of = W1, icntr_of = ic1, f_of = f, d_of = d, rc_of = 2\<rparr>)
      else
        bnd (GElog W icntr ''--- Model has the correct size.'') (\<lambda>(W1, ic1).
        bnd (wr ic1 I_ConstDeriv 1) (\<lambda>ic2.
        Inr \<lparr>world_of = W1, icntr_of = ic2, f_of = f, d_of = d, rc_of = 0\<rparr>))))))"

definition gefunc_term :: "world \<Rightarrow> cint list \<Rightarrow> 'r \<Rightarrow> 'r list \<Rightarrow> fault + 'r result" where
  "gefunc_term W icntr f d =
     bnd (GElog W icntr ''--- Terminating'') (\<lambda>(W1, ic1).
     Inr \<lparr>world_of = W1, icntr_of = ic1, f_of = f, d_of = d, rc_of = 0\<rparr>)"

definition gefunc_eval ::
  "('r \<Rightarrow> 'r) \<Rightarrow> ('r \<Rightarrow> 'r) \<Rightarrow> world \<Rightarrow> cint list \<Rightarrow> 'r list \<Rightarrow> 'r \<Rightarrow> 'r list
     \<Rightarrow> fault + ('r :: {minus, uminus, one}) result" where
  "gefunc_eval std_sin std_cos W icntr x f d =
     bnd (GElog W icntr ''--- Evaluation mode'') (\<lambda>(W1, ic1).
     bnd (rd ic1 I_Eqno) (\<lambda>findex.
     bnd (rd ic1 I_Dofunc) (\<lambda>dofnc.
     bnd (rd ic1 I_Dodrv) (\<lambda>dodrv.
     if findex \<ge> 1 \<and> findex \<le> 2 then
       bnd (if dofnc \<noteq> 0 then
              (if findex = 1 then
                 bnd (ld x 0) (\<lambda>x0. bnd (ld x 2) (\<lambda>x2. Inr (std_sin x0 - x2)))
               else
                 bnd (ld x 1) (\<lambda>x1. bnd (ld x 3) (\<lambda>x3. Inr (std_cos x1 - x3))))
            else Inr f) (\<lambda>f1.
       bnd (if dodrv \<noteq> 0 then
              (if findex = 1 then
                 bnd (ld x 0) (\<lambda>x0. bnd (st d 0 (std_cos x0)) (\<lambda>d1. st d1 2 (- 1)))
               else
                 bnd (ld x 1) (\<lambda>x1. bnd (st d 1 (- std_sin x1)) (\<lambda>d1. st d1 3 (- 1))))
            else Inr d) (\<lambda>d2.
       Inr \<lparr>world_of = W1, icntr_of = ic1, f_of = f1, d_of = d2, rc_of = 0\<rparr>))
     else
       bnd (GEstat W1 ic1 '' ** fIndex has unexpected value.'') (\<lambda>(W2, ic2).
       Inr \<lparr>world_of = W2, icntr_of = ic2, f_of = f, d_of = d, rc_of = 2\<rparr>)))))"

definition gefunc_constderiv ::
  "world \<Rightarrow> cint list \<Rightarrow> 'r \<Rightarrow> 'r list \<Rightarrow> fault + ('r :: {uminus, one}) result" where
  "gefunc_constderiv W icntr f d =
     bnd (GElog W icntr ''--- Constant derivative call'') (\<lambda>(W1, ic1).
     bnd (rd ic1 I_Eqno) (\<lambda>findex.
     bnd (c_int (findex + 1)) (\<lambda>i.
     bnd (st d i (- 1)) (\<lambda>d1.
     Inr \<lparr>world_of = W1, icntr_of = ic1, f_of = f, d_of = d1, rc_of = 0\<rparr>))))"

definition gefunc_undefined :: "world \<Rightarrow> cint list \<Rightarrow> 'r \<Rightarrow> 'r list \<Rightarrow> fault + 'r result" where
  "gefunc_undefined W icntr f d =
     bnd (GElog W icntr '' ** Mode not defined.'') (\<lambda>(W1, ic1).
     bnd (GEstat W1 ic1 '' ** Mode not defined.'') (\<lambda>(W2, ic2).
     Inr \<lparr>world_of = W2, icntr_of = ic2, f_of = f, d_of = d, rc_of = 2\<rparr>))"

definition gefunc ::
  "('r \<Rightarrow> 'r) \<Rightarrow> ('r \<Rightarrow> 'r) \<Rightarrow> world \<Rightarrow> cint list \<Rightarrow> 'r list \<Rightarrow> 'r \<Rightarrow> 'r list
     \<Rightarrow> fault + ('r :: {minus, uminus, one}) result" where
  "gefunc std_sin std_cos W icntr x f d =
     bnd (rd icntr I_Mode) (\<lambda>mode.
     if mode = DOINIT then gefunc_init W icntr f d
     else if mode = DOTERM then gefunc_term W icntr f d
     else if mode = DOEVAL then gefunc_eval std_sin std_cos W icntr x f d
     else if mode = DOCONSTDERIV then gefunc_constderiv W icntr f d
     else gefunc_undefined W icntr f d)"

subsection \<open>The quantities of the specification\<close>

text \<open>
  The fields of the control vector that \<open>GEwrite\<close> reads, the index \<open>startMsg\<close> of the first
  payload word of the next record and the number \<open>ints2write\<close> of words from there to the
  end of the vector, as \<open>GEwrite\<close> computes them.
\<close>

definition totLen :: "cint list \<Rightarrow> int" where
  "totLen icntr = sint (icntr ! 0)"

definition bufStrt :: "cint list \<Rightarrow> int" where
  "bufStrt icntr = sint (icntr ! 25)"

definition bufLen :: "cint list \<Rightarrow> int" where
  "bufLen icntr = sint (icntr ! 26)"

definition startMsg :: "cint list \<Rightarrow> int" where
  "startMsg icntr = bufStrt icntr + bufLen icntr + 1"

definition remainingWords :: "cint list \<Rightarrow> int" where
  "remainingWords icntr = totLen icntr - startMsg icntr"

text \<open>What the call leaves in the debug sink.\<close>

definition debug_of :: "world \<Rightarrow> cint list \<Rightarrow> string \<Rightarrow> int \<Rightarrow> world" where
  "debug_of W icntr line mode =
     (if sint (icntr ! 27) \<noteq> 0 then debug_mirror W line mode else W)"

text \<open>
  The number of bytes \<open>GEwrite\<close> stores of a line of \<open>n\<close> bytes when \<open>r\<close> words remain, and
  the ceiling of \<open>n / 4\<close>.
\<close>

definition stored_len :: "nat \<Rightarrow> int \<Rightarrow> int" where
  "stored_len n r =
     (let n1 = (if int n > 256 then 256 else int n) in if INTS n1 > r then r * 4 else n1)"

definition ceil4 :: "int \<Rightarrow> int" where
  "ceil4 n = (n + 3) div 4"

text \<open>
  A control vector as the header of geheader.h describes it: it holds the 28 header
  fields, \<open>icntr[I_Length]\<close> is its length, the buffer starts behind the header
  (\<open>icntr[I_BufStrt]\<close> counts from 1) and the words in use lie inside the vector. The two
  words past the end have indices that are still \<open>int\<close>s.
\<close>

definition control_vector :: "cint list \<Rightarrow> bool" where
  "control_vector icntr \<longleftrightarrow>
     28 \<le> length icntr \<and> int (length icntr) + 2 < 2 ^ 31 \<and>
     totLen icntr = int (length icntr) \<and>
     29 \<le> bufStrt icntr \<and> 0 \<le> bufLen icntr \<and>
     bufStrt icntr + bufLen icntr \<le> totLen icntr + 1"

text \<open>
  The vector after the \<open>memcpy\<close> of \<open>n\<close> bytes and the two stores of the header, and after
  the whole call when it found room and the record lies behind the counter.
\<close>

definition header_stored :: "cint list \<Rightarrow> string \<Rightarrow> int \<Rightarrow> int \<Rightarrow> cint list" where
  "header_stored icntr line n mode =
     (store_bytes icntr (nat (4 * startMsg icntr)) (take (nat n) line))
       [nat (startMsg icntr - 2) := word_of_int n, nat (startMsg icntr - 1) := word_of_int mode]"

definition packed :: "cint list \<Rightarrow> string \<Rightarrow> int \<Rightarrow> cint list" where
  "packed icntr line mode =
     (let n = stored_len (strlen line) (remainingWords icntr)
      in (header_stored icntr line n mode)[26 := word_of_int (bufLen icntr + (2 + INTS n))])"

text \<open>
  The string slot that \<open>GEname\<close> reads: \<open>icntr[11]\<close> is the declared number of characters and
  \<open>icntr[10]\<close> the position, counted from 1, of the word where the string starts. The bytes
  of the slot are those from that word to the end of the vector (none when the position is
  not in the vector). A copy of \<open>n\<close> bytes stays inside the vector when the slot has \<open>n\<close> bytes
  or holds a null byte, at which the copy stops reading.
\<close>

definition slot_count :: "cint list \<Rightarrow> int" where
  "slot_count icntr = sint (icntr ! 11)"

definition slot_offset :: "cint list \<Rightarrow> int" where
  "slot_offset icntr = sint (icntr ! 10)"

definition slot_bytes :: "cint list \<Rightarrow> string" where
  "slot_bytes icntr =
     (let q = 4 * (slot_offset icntr - 1)
      in if 0 \<le> q \<and> q \<le> 4 * int (length icntr)
         then load_bytes icntr (nat q) (4 * length icntr - nat q) else [])"

definition slot_readable :: "cint list \<Rightarrow> nat \<Rightarrow> bool" where
  "slot_readable icntr n \<longleftrightarrow> n \<le> length (slot_bytes icntr) \<or> NUL \<in> set (slot_bytes icntr)"

text \<open>The field \<open>icntr[i]\<close> of a control vector.\<close>

definition fld :: "cint list \<Rightarrow> int \<Rightarrow> int" where
  "fld icntr i = sint (icntr ! nat i)"

text \<open>The vector after \<open>GEwrite\<close>, whether it found room or not.\<close>

definition appended :: "cint list \<Rightarrow> string \<Rightarrow> int \<Rightarrow> cint list" where
  "appended icntr line mode =
     (if 0 < remainingWords icntr then packed icntr line mode else icntr)"

text \<open>
  Modelled from the spec: the host's draining of the buffer, which is not in the sources.
  The records lie one after the other from position \<open>icntr[I_BufStrt]\<close> (counted from 1) over
  \<open>icntr[I_BufLen]\<close> words; each is a length in bytes, a destination, and the bytes packed
  into words. A record takes the words \<open>GEwrite\<close> counts for it, \<open>2 + INTS(length)\<close>: the
  \<open>ceil (length / 4)\<close> payload words of the specification, but for the empty record, which
  takes one. The result is the list of destinations and texts, or \<open>None\<close> when the words in
  use are not a sequence of records.
\<close>

fun parse_records :: "cint list \<Rightarrow> nat \<Rightarrow> nat \<Rightarrow> nat \<Rightarrow> (int \<times> string) list option" where
  "parse_records m p e 0 = (if p = e then Some [] else None)"
| "parse_records m p e (Suc k) =
     (if p = e then Some []
      else let n = sint (m ! p) in
        if n < 0 \<or> e < p + 2 + nat (INTS n) then None
        else map_option (Cons (sint (m ! (p + 1)), load_bytes m (4 * (p + 2)) (nat n)))
               (parse_records m (p + 2 + nat (INTS n)) e k))"

definition records :: "cint list \<Rightarrow> (int \<times> string) list option" where
  "records icntr =
     parse_records icntr (nat (bufStrt icntr - 1)) (nat (bufStrt icntr - 1 + bufLen icntr))
       (nat (bufLen icntr))"

text \<open>
  What an Evaluate call stores to: the equation index is valid when it is 1 or 2; the
  function value is stored for a valid index when "compute function" is set; the
  derivatives of equation 1 go to positions 0 and 2 of \<open>d\<close>, those of equation 2 to
  positions 1 and 3, when "compute derivatives" is set.
\<close>

definition valid_eqno :: "cint list \<Rightarrow> bool" where
  "valid_eqno icntr \<longleftrightarrow> 1 \<le> fld icntr I_Eqno \<and> fld icntr I_Eqno \<le> 2"

definition writes_f :: "cint list \<Rightarrow> bool" where
  "writes_f icntr \<longleftrightarrow> valid_eqno icntr \<and> fld icntr I_Dofunc \<noteq> 0"

definition writes_d :: "cint list \<Rightarrow> nat set" where
  "writes_d icntr =
     (if valid_eqno icntr \<and> fld icntr I_Dodrv \<noteq> 0
      then (if fld icntr I_Eqno = 1 then {0, 2} else {1, 3}) else {})"

text \<open>The message of an Init call: the first count that does not match, or success.\<close>

definition init_message :: "cint list \<Rightarrow> string" where
  "init_message icntr =
     (if fld icntr I_Neq \<noteq> 2 then ''--- Number of equations do not match''
      else if fld icntr I_Nvar \<noteq> 4 then ''--- Number of variables do not match''
      else if fld icntr I_Nz \<noteq> 4 then ''--- Number of differentibles do not match''
      else ''--- Model has the correct size.'')"

text \<open>The byte with address \<open>q\<close> of the array.\<close>

definition byte_at :: "cint list \<Rightarrow> nat \<Rightarrow> char" where
  "byte_at m q = get_byte (m ! (q div 4)) (q mod 4)"

subsection \<open>Example inputs\<close>

text \<open>
  A world with the debug sink closed, and control vectors of 64 and of 32 words whose
  buffer starts at position 30 (counted from 1) and is empty, with the debug flag off.
\<close>

definition W0 :: world where
  "W0 = \<lparr>fpDebug = None, fopen_ok = True, stdout = []\<rparr>"

definition icntr64 :: "cint list" where
  "icntr64 = (replicate 64 0)[0 := 64, 25 := 30]"

definition icntr32 :: "cint list" where
  "icntr32 = (replicate 32 0)[0 := 32, 25 := 30]"

text \<open>A vector of 32 words with the string \<open>abc\<close> deposited in its word 29 (counted from 1).\<close>

definition icntr_name :: "cint list" where
  "icntr_name = store_bytes ((replicate 32 0)[0 := 32, 10 := 29, 11 := 3, 25 := 30]) 112 ''abc''"

text \<open>
  Control vectors of 64 words for an Evaluate call with equation index 0, for an Init call
  with 3 equations declared, and for an Init call with the expected counts; and a vector
  of 30 words, whose buffer has no payload word, for an Init call with 3 equations.
\<close>

definition icntr_index0 :: "cint list" where
  "icntr_index0 = icntr64[4 := 3, 5 := 0]"

definition icntr_mismatch :: "cint list" where
  "icntr_mismatch = icntr64[1 := 3, 4 := 1]"

definition icntr_match :: "cint list" where
  "icntr_match = icntr64[1 := 2, 2 := 4, 3 := 4, 4 := 1]"

definition icntr_full :: "cint list" where
  "icntr_full = (replicate 30 0)[0 := 30, 1 := 3, 4 := 1, 25 := 29]"

text \<open>
  A vector of 64 words with 31 words of its buffer in use, so that two payload words are
  left; a vector whose buffer start and counter are the largest \<open>int\<close>; a vector of 32 words
  whose string slot is all zero; and a vector for a ConstantDerivative call with equation
  index 0.
\<close>

definition icntr_tail :: "cint list" where
  "icntr_tail = (replicate 64 0)[0 := 64, 25 := 30, 26 := 31]"

definition icntr_huge :: "cint list" where
  "icntr_huge = (replicate 64 0)[0 := 64, 25 := 2147483647, 26 := 2147483647]"

definition icntr_noslot :: "cint list" where
  "icntr_noslot = (replicate 32 0)[0 := 32, 25 := 30]"

definition icntr_cd0 :: "cint list" where
  "icntr_cd0 = icntr64[4 := 4, 5 := 0]"

section \<open>Bytes in words\<close>

lemmas I_defs = I_Length_def I_Neq_def I_Nvar_def I_Nz_def I_Mode_def I_Eqno_def
  I_Dofunc_def I_Dodrv_def I_Newpt_def I_Getfil_def I_Smode_def I_ConstDeriv_def
  I_HVProd_def I_BufStrt_def I_BufLen_def I_Debug_def

lemma bit_of_char_nat: "bit (of_char c :: nat) i \<Longrightarrow> i < 8"
proof -
  assume a: "bit (of_char c :: nat) i"
  have "take_bit 8 (of_char c :: nat) = of_char c"
    by (simp add: take_bit_eq_mod)
  then have "bit (take_bit 8 (of_char c :: nat)) i" using a by simp
  then show "i < 8" by (simp add: bit_take_bit_iff)
qed

lemma bit_of_char_word: "bit (of_char c :: cint) i \<longleftrightarrow> bit (of_char c :: nat) i"
proof -
  have "(of_char c :: cint) = of_nat (of_char c)" by (simp add: of_nat_of_char)
  then show ?thesis using bit_of_char_nat[of c i] by (auto simp: bit_of_nat_iff)
qed

lemma bit_set_byte:
  "k < 4 \<Longrightarrow> bit (set_byte w k c) n \<longleftrightarrow>
     (if 8 * k \<le> n \<and> n < 8 * k + 8 then bit (of_char c :: nat) (n - 8 * k) else bit w n)"
  unfolding set_byte_def
  by (auto simp add: bit_simps bit_of_char_word dest: bit_imp_le_length bit_of_char_nat)

lemma bit_get_byte:
  "k < 4 \<Longrightarrow> bit (of_char (get_byte w k) :: nat) i \<longleftrightarrow> i < 8 \<and> bit w (8 * k + i)"
proof -
  assume k: "k < 4"
  have "(of_char (get_byte w k) :: nat) = take_bit 8 (unat (drop_bit (8 * k) w))"
    unfolding get_byte_def by (simp add: take_bit_eq_mod)
  then show ?thesis using k
    by (auto simp add: bit_simps dest: bit_imp_le_length)
qed

lemma get_set_byte_same: "k < 4 \<Longrightarrow> get_byte (set_byte w k c) k = c"
  apply (rule of_char_eqI[where 'a = nat])
  apply (rule bit_eqI)
  apply (auto simp: bit_get_byte bit_set_byte dest: bit_of_char_nat)
  done

lemma get_set_byte_other:
  "k < 4 \<Longrightarrow> j < 4 \<Longrightarrow> j \<noteq> k \<Longrightarrow> get_byte (set_byte w k c) j = get_byte w j"
  apply (rule of_char_eqI[where 'a = nat])
  apply (rule bit_eqI)
  apply (auto simp: bit_get_byte bit_set_byte)
  done

lemma length_store_bytes [simp]: "length (store_bytes m p cs) = length m"
  by (induction cs arbitrary: m p) simp_all

lemma store_bytes_nth_below: "i < p div 4 \<Longrightarrow> store_bytes m p cs ! i = m ! i"
proof (induction cs arbitrary: m p)
  case Nil
  then show ?case by simp
next
  case (Cons c cs)
  have "i < Suc p div 4" using Cons.prems by (simp add: div_le_mono less_le_trans)
  then show ?case using Cons.IH[of "Suc p"] Cons.prems by simp
qed

lemma store_bytes_nth_above: "p + length cs \<le> 4 * i \<Longrightarrow> store_bytes m p cs ! i = m ! i"
proof (induction cs arbitrary: m p)
  case Nil
  then show ?case by simp
next
  case (Cons c cs)
  have "p div 4 \<noteq> i" using Cons.prems by auto
  then show ?case using Cons.IH[of "Suc p"] Cons.prems by simp
qed

lemma byte_at_update:
  assumes lt: "p div 4 < length m"
  shows "byte_at (m[p div 4 := set_byte (m ! (p div 4)) (p mod 4) c]) q =
     (if q = p then c else byte_at m q)"
proof (cases "q div 4 = p div 4")
  case False
  then show ?thesis by (auto simp: byte_at_def)
next
  case True
  show ?thesis
  proof (cases "q = p")
    case True
    then show ?thesis using lt by (simp add: byte_at_def get_set_byte_same)
  next
    case False
    then have "q mod 4 \<noteq> p mod 4" using True by (metis div_mult_mod_eq)
    then show ?thesis using True False lt
      by (simp add: byte_at_def get_set_byte_other)
  qed
qed

lemma byte_at_store_bytes:
  "p + length cs \<le> 4 * length m \<Longrightarrow>
   byte_at (store_bytes m p cs) q =
     (if p \<le> q \<and> q < p + length cs then cs ! (q - p) else byte_at m q)"
proof (induction cs arbitrary: m p)
  case Nil
  then show ?case by auto
next
  case (Cons c cs)
  have lt: "p div 4 < length m" using Cons.prems by auto
  let ?m = "m[p div 4 := set_byte (m ! (p div 4)) (p mod 4) c]"
  have "byte_at (store_bytes ?m (Suc p) cs) q =
     (if Suc p \<le> q \<and> q < Suc p + length cs then cs ! (q - Suc p) else byte_at ?m q)"
    using Cons.prems by (intro Cons.IH) simp
  then show ?case using byte_at_update[OF lt, of c q]
    by (auto simp: nth_Cons' Suc_diff_Suc)
qed

lemma load_bytes_byte_at: "load_bytes m p n = map (byte_at m) [p ..< p + n]"
  by (simp add: load_bytes_def byte_at_def)

lemma load_store_bytes:
  assumes a: "p + length cs \<le> 4 * length m"
  shows "load_bytes (store_bytes m p cs) p (length cs) = cs"
proof -
  have "load_bytes (store_bytes m p cs) p (length cs) =
      map (\<lambda>q. cs ! (q - p)) [p ..< p + length cs]"
    unfolding load_bytes_byte_at
    by (rule map_cong) (simp_all add: byte_at_store_bytes[OF a])
  also have "\<dots> = cs"
    by (rule nth_equalityI) simp_all
  finally show ?thesis .
qed

lemma load_bytes_cong:
  "(\<And>i. p div 4 \<le> i \<Longrightarrow> 4 * i < p + n \<Longrightarrow> m' ! i = m ! i) \<Longrightarrow>
   load_bytes m' p n = load_bytes m p n"
  unfolding load_bytes_def
  by (rule map_cong) (auto simp: div_le_mono)

section \<open>The arithmetic of GEwrite\<close>

lemma bnd_simps [simp]: "bnd (Inl e) k = Inl e" "bnd (Inr v) k = k v"
  by (simp_all add: bnd_def)

lemma sint_word_of_int_c:
  "- (2 ^ 31) \<le> v \<Longrightarrow> v < 2 ^ 31 \<Longrightarrow> sint (word_of_int v :: cint) = v"
  by (simp add: sint_sbintrunc' signed_take_bit_int_eq_self)

lemma sint_c_range: "- (2 ^ 31) \<le> sint (w :: cint)" "sint (w :: cint) < 2 ^ 31"
  using sint_ge[of w] sint_lt[of w] by simp_all

lemma rd_in [simp]: "0 \<le> i \<Longrightarrow> i < int (length a) \<Longrightarrow> rd a i = Inr (sint (a ! nat i))"
  by (simp add: rd_def ld_def)

lemma wr_in [simp]:
  "0 \<le> i \<Longrightarrow> i < int (length a) \<Longrightarrow> wr a i v = Inr (a[nat i := word_of_int v])"
  by (simp add: wr_def st_def)

lemma c_int_in [simp]: "- (2 ^ 31) \<le> v \<Longrightarrow> v < 2 ^ 31 \<Longrightarrow> c_int v = Inr v"
  by (simp add: c_int_def)

lemma INTS_pos: "1 \<le> n \<Longrightarrow> INTS n = ceil4 n"
  unfolding INTS_def c_div_def ceil4_def by (simp add: sgn_if) presburger

lemma INTS_0: "INTS 0 = 1"
  unfolding INTS_def c_div_def by simp

lemma INTS_ge: "0 \<le> n \<Longrightarrow> 1 \<le> INTS n \<and> n \<le> 4 * INTS n \<and> 4 * INTS n \<le> n + 4"
  by (cases "n = 0") (simp_all add: INTS_0 INTS_pos ceil4_def, presburger)

lemma stored_len_bounds:
  "0 < r \<Longrightarrow> 0 \<le> stored_len n r \<and> stored_len n r \<le> int n \<and> stored_len n r \<le> 256 \<and>
     stored_len n r \<le> 4 * r \<and> INTS (stored_len n r) \<le> r"
  unfolding stored_len_def Let_def
  using INTS_ge[of "int n"] INTS_ge[of 256] INTS_ge[of "4 * r"]
  by (auto simp: INTS_pos ceil4_def)

section \<open>What GEwrite leaves in the vector\<close>

lemma GEwrite_full:
  assumes len: "28 \<le> length icntr"
    and rng: "bufStrt icntr + bufLen icntr + 1 < 2 ^ 31" "- (2 ^ 31) \<le> bufStrt icntr + bufLen icntr"
       "- (2 ^ 31) \<le> remainingWords icntr"
    and full: "remainingWords icntr \<le> 0"
  shows "GEwrite W icntr line mode = Inr (debug_of W icntr line mode, icntr)"
proof -
  have ne: "icntr \<noteq> []" using len by auto
  show ?thesis
    unfolding GEwrite_def using len rng full ne
    by (simp add: I_defs Let_def debug_of_def remainingWords_def startMsg_def totLen_def bufStrt_def bufLen_def)
qed

lemma GEwrite_room:
  assumes len: "28 \<le> length icntr"
    and rng: "bufStrt icntr + bufLen icntr + 1 < 2 ^ 31"
    and room: "0 < remainingWords icntr"
    and hdr: "1 \<le> bufStrt icntr + bufLen icntr"
    and tot: "totLen icntr \<le> int (length icntr)"
    and line: "strlen line < 2 ^ 31"
    and n: "n = stored_len (strlen line) (remainingWords icntr)"
    and m3: "m3 = header_stored icntr line n mode"
  shows "GEwrite W icntr line mode =
     bnd (c_int (sint (m3 ! 26) + (2 + INTS n))) (\<lambda>new.
     Inr (debug_of W icntr line mode, m3[26 := word_of_int new]))"
proof -
  let ?r = "remainingWords icntr"
  let ?s = "startMsg icntr"
  have sb: "0 \<le> n" "n \<le> int (strlen line)" "n \<le> 256" "n \<le> 4 * ?r" "INTS n \<le> ?r"
    using stored_len_bounds[OF room, of "strlen line"] n by simp_all
  have ll: "int (strlen line) \<le> int (length line)"
    by (simp add: strlen_def cstr_def length_takeWhile_le)
  have r1: "- (2 ^ 31) \<le> bufStrt icntr + bufLen icntr" using hdr by simp
  have r3: "?r < 2 ^ 31" "- (2 ^ 31) \<le> ?r"
    using sint_c_range[of "icntr ! 0"] hdr room
    unfolding remainingWords_def startMsg_def totLen_def by simp_all
  have s2: "2 \<le> ?s" "?s < int (length icntr)"
    using hdr room tot by (simp_all add: startMsg_def remainingWords_def)
  have nb: "(if ?r < INTS (if 256 < int (strlen line) then 256 else int (strlen line))
             then c_int (?r * 4)
             else Inr (if 256 < int (strlen line) then 256 else int (strlen line))) = Inr n"
    using n sb r3 unfolding stored_len_def Let_def by (auto simp: c_int_def)
  have mc: "memcpy icntr ?s line n = Inr (store_bytes icntr (nat (4 * ?s)) (take (nat n) line))"
    unfolding memcpy_def using sb ll s2 room tot by (simp add: remainingWords_def)
  have lm3: "length m3 = length icntr" by (simp add: m3 header_stored_def)
  have ne: "icntr \<noteq> []" using len by auto
  have rw: "sint (icntr ! 0) - ?s = ?r"
    by (simp add: remainingWords_def totLen_def)
  have sw: "sint (icntr ! 25) + sint (icntr ! 26) + 1 = ?s"
    by (simp add: startMsg_def bufStrt_def bufLen_def)
  have c1: "c_int (sint (icntr ! 25) + sint (icntr ! 26)) = Inr (sint (icntr ! 25) + sint (icntr ! 26))"
    using r1 rng by (simp add: bufStrt_def bufLen_def)
  have c2: "c_int ?s = Inr ?s" using r1 rng by (simp add: startMsg_def)
  have c3: "c_int ?r = Inr ?r" using r3 by simp
  have c4: "c_int (int (strlen line)) = Inr (int (strlen line))" using line by simp
  have w1: "wr (store_bytes icntr (nat (4 * ?s)) (take (nat n) line)) (?s - 2) n
      = Inr ((store_bytes icntr (nat (4 * ?s)) (take (nat n) line))[nat (?s - 2) := word_of_int n])"
    using s2 by simp
  have w2: "wr ((store_bytes icntr (nat (4 * ?s)) (take (nat n) line))[nat (?s - 2) := word_of_int n]) (?s - 1) mode
      = Inr m3"
    using s2 by (simp add: m3 header_stored_def)
  have r26: "rd m3 I_BufLen = Inr (sint (m3 ! 26))" using lm3 len by (simp add: I_defs)
  have w3: "wr m3 I_BufLen v = Inr (m3[26 := word_of_int v])" for v
    using lm3 len by (simp add: I_defs)
  have d: "rd icntr I_Debug = Inr (sint (icntr ! 27))" "rd icntr I_BufStrt = Inr (sint (icntr ! 25))"
     "rd icntr I_BufLen = Inr (sint (icntr ! 26))" "rd icntr I_Length = Inr (sint (icntr ! 0))"
    using len ne by (simp_all add: I_defs)
  have nr: "(?r \<le> 0) = False" using room by simp
  show ?thesis
    unfolding GEwrite_def
    by (simp only: d bnd_simps Let_def c1 sw c2 rw c3 c4 nr if_False nb mc w1 w2 r26 w3 debug_of_def)
qed

lemma header_stored_26:
  assumes "28 \<le> bufStrt icntr + bufLen icntr"
  shows "header_stored icntr line n mode ! 26 = icntr ! 26"
proof -
  have "(26::nat) < nat (4 * startMsg icntr) div 4" using assms by (simp add: startMsg_def)
  then have "store_bytes icntr (nat (4 * startMsg icntr)) (take (nat n) line) ! 26 = icntr ! 26"
    by (rule store_bytes_nth_below)
  moreover have "nat (startMsg icntr - 2) \<noteq> 26" "nat (startMsg icntr - 1) \<noteq> 26"
    using assms by (simp_all add: startMsg_def)
  ultimately show ?thesis by (simp add: header_stored_def)
qed

lemma GEwrite_packed:
  assumes cv: "control_vector icntr" and line: "strlen line < 2 ^ 31"
    and room: "0 < remainingWords icntr"
  shows "GEwrite W icntr line mode = Inr (debug_of W icntr line mode, packed icntr line mode)"
proof -
  define n where "n = stored_len (strlen line) (remainingWords icntr)"
  define m3 where "m3 = header_stored icntr line n mode"
  have len: "28 \<le> length icntr" and tot: "totLen icntr = int (length icntr)"
    and big: "int (length icntr) + 2 < 2 ^ 31"
    and bs: "29 \<le> bufStrt icntr" and bl: "0 \<le> bufLen icntr"
    and use: "bufStrt icntr + bufLen icntr \<le> totLen icntr + 1"
    using cv by (simp_all add: control_vector_def)
  have sb: "0 \<le> n" "INTS n \<le> remainingWords icntr"
    using stored_len_bounds[OF room, of "strlen line"] n_def by simp_all
  have m26: "m3 ! 26 = icntr ! 26" unfolding m3_def using bs bl by (intro header_stored_26) simp
  have i1: "1 \<le> INTS n" using INTS_ge[of n] sb by simp
  have "bufLen icntr + (2 + INTS n) \<le> totLen icntr" 
    using sb bs by (simp add: remainingWords_def startMsg_def)
  then have c5: "c_int (sint (m3 ! 26) + (2 + INTS n)) = Inr (bufLen icntr + (2 + INTS n))"
    using m26 tot big bl i1 by (simp add: bufLen_def)
  have "GEwrite W icntr line mode =
     bnd (c_int (sint (m3 ! 26) + (2 + INTS n))) (\<lambda>new.
     Inr (debug_of W icntr line mode, m3[26 := word_of_int new]))"
    using len room tot bs bl use big line n_def m3_def
    by (intro GEwrite_room) simp_all
  then show ?thesis
    by (simp only: c5 bnd_simps packed_def Let_def n_def[symmetric] m3_def[symmetric])
qed

lemma GEwrite_noroom:
  assumes cv: "control_vector icntr" and full: "remainingWords icntr \<le> 0"
  shows "GEwrite W icntr line mode = Inr (debug_of W icntr line mode, icntr)"
proof -
  have len: "28 \<le> length icntr" and tot: "totLen icntr = int (length icntr)"
    and big: "int (length icntr) + 2 < 2 ^ 31"
    and bs: "29 \<le> bufStrt icntr" and bl: "0 \<le> bufLen icntr"
    and use: "bufStrt icntr + bufLen icntr \<le> totLen icntr + 1"
    using cv by (simp_all add: control_vector_def)
  show ?thesis using len tot big bs bl use full
    by (intro GEwrite_full) (simp_all add: remainingWords_def startMsg_def)
qed

lemma length_header_stored [simp]: "length (header_stored icntr line n mode) = length icntr"
  by (simp add: header_stored_def)

lemma length_packed [simp]: "length (packed icntr line mode) = length icntr"
  by (simp add: packed_def Let_def)

lemma cvD:
  assumes "control_vector icntr"
  shows "28 \<le> length icntr" "totLen icntr = int (length icntr)" "int (length icntr) + 2 < 2 ^ 31"
    "29 \<le> bufStrt icntr" "0 \<le> bufLen icntr" "bufStrt icntr + bufLen icntr \<le> totLen icntr + 1"
    "30 \<le> startMsg icntr"
  using assms by (simp_all add: control_vector_def startMsg_def)

lemma strlen_le_length: "strlen line \<le> length line"
  by (simp add: strlen_def cstr_def length_takeWhile_le)

lemma stored_len_facts:
  assumes room: "0 < r" and n: "n = stored_len (strlen line) r"
  shows "0 \<le> n" "n \<le> int (strlen line)" "n \<le> int (length line)" "n \<le> 256" "n \<le> 4 * r"
    "INTS n \<le> r" "1 \<le> INTS n" "n \<le> 4 * INTS n"
proof -
  have a: "0 \<le> n \<and> n \<le> int (strlen line) \<and> n \<le> 256 \<and> n \<le> 4 * r \<and> INTS n \<le> r"
    using stored_len_bounds[OF room, of "strlen line"] n by simp
  then show "0 \<le> n" "n \<le> int (strlen line)" "n \<le> 256" "n \<le> 4 * r" "INTS n \<le> r" by simp_all
  show "n \<le> int (length line)" using a strlen_le_length[of line] by linarith
  show "1 \<le> INTS n" "n \<le> 4 * INTS n" using INTS_ge[of n] a by simp_all
qed

lemma packed_nth_frame:
  assumes cv: "control_vector icntr" and room: "0 < remainingWords icntr"
    and i: "int i < startMsg icntr - 2 \<and> i \<noteq> 26 \<or>
            startMsg icntr + INTS (stored_len (strlen line) (remainingWords icntr)) \<le> int i"
  shows "packed icntr line mode ! i = icntr ! i"
proof -
  define n where "n = stored_len (strlen line) (remainingWords icntr)"
  note c = cvD[OF cv]
  note sb = stored_len_facts[OF room n_def]
  have i': "int i < startMsg icntr - 2 \<and> i \<noteq> 26 \<or> startMsg icntr + INTS n \<le> int i"
    using i n_def by simp
  then have ne: "i \<noteq> nat (startMsg icntr - 2)" "i \<noteq> nat (startMsg icntr - 1)" "i \<noteq> 26"
    using c sb by auto
  have "store_bytes icntr (nat (4 * startMsg icntr)) (take (nat n) line) ! i = icntr ! i"
  proof (cases "int i < startMsg icntr - 2")
    case True
    then have "i < nat (4 * startMsg icntr) div 4" using c by auto
    then show ?thesis by (rule store_bytes_nth_below)
  next
    case False
    then have "startMsg icntr + INTS n \<le> int i" using i' by simp
    then have "nat (4 * startMsg icntr) + length (take (nat n) line) \<le> 4 * i"
      using sb c by auto
    then show ?thesis by (rule store_bytes_nth_above)
  qed
  then show ?thesis using ne
    by (simp add: packed_def Let_def n_def[symmetric] header_stored_def)
qed

lemma packed_fields:
  assumes cv: "control_vector icntr" and room: "0 < remainingWords icntr"
    and n: "n = stored_len (strlen line) (remainingWords icntr)"
  shows "sint (packed icntr line mode ! nat (startMsg icntr - 2)) = n"
    and "- (2 ^ 31) \<le> mode \<Longrightarrow> mode < 2 ^ 31 \<Longrightarrow>
         sint (packed icntr line mode ! nat (startMsg icntr - 1)) = mode"
    and "bufLen (packed icntr line mode) = bufLen icntr + (2 + INTS n)"
    and "load_bytes (packed icntr line mode) (nat (4 * startMsg icntr)) (nat n) = take (nat n) line"
proof -
  note c = cvD[OF cv]
  note sb = stored_len_facts[OF room n]
  have s: "startMsg icntr < int (length icntr)" using room c by (simp add: remainingWords_def)
  show "sint (packed icntr line mode ! nat (startMsg icntr - 2)) = n"
    using c s sb by (simp add: packed_def Let_def n[symmetric] header_stored_def sint_word_of_int_c)
  show "sint (packed icntr line mode ! nat (startMsg icntr - 1)) = mode"
    if "- (2 ^ 31) \<le> mode" "mode < 2 ^ 31"
    using c s that by (simp add: packed_def Let_def n[symmetric] header_stored_def sint_word_of_int_c)
  have "bufLen icntr + (2 + INTS n) \<le> totLen icntr"
    using sb c by (simp add: remainingWords_def startMsg_def)
  then have v: "sint (word_of_int (bufLen icntr + (2 + INTS n)) :: cint) = bufLen icntr + (2 + INTS n)"
    using c sb by (intro sint_word_of_int_c) simp_all
  have "packed icntr line mode ! 26 = word_of_int (bufLen icntr + (2 + INTS n))"
    using c by (simp add: packed_def Let_def n[symmetric])
  then show "bufLen (packed icntr line mode) = bufLen icntr + (2 + INTS n)"
    unfolding bufLen_def[of "packed icntr line mode"] using v by (simp only:)
  let ?cs = "take (nat n) line"
  let ?p = "nat (4 * startMsg icntr)"
  have lcs: "length ?cs = nat n" using sb by simp
  have fit: "?p + length ?cs \<le> 4 * length icntr"
    using sb c s room by (simp add: remainingWords_def)
  have "load_bytes (packed icntr line mode) ?p (nat n) = load_bytes (store_bytes icntr ?p ?cs) ?p (nat n)"
  proof (rule load_bytes_cong)
    fix i assume "?p div 4 \<le> i" "4 * i < ?p + nat n"
    then have "nat (startMsg icntr) \<le> i" by simp
    then have "i \<noteq> nat (startMsg icntr - 2)" "i \<noteq> nat (startMsg icntr - 1)" "i \<noteq> 26"
      using c by auto
    then show "packed icntr line mode ! i = store_bytes icntr ?p ?cs ! i"
      by (simp add: packed_def Let_def n[symmetric] header_stored_def)
  qed
  also have "\<dots> = ?cs" using load_store_bytes[OF fit] lcs by simp
  finally show "load_bytes (packed icntr line mode) ?p (nat n) = ?cs" .
qed

lemma control_vector_packed:
  assumes cv: "control_vector icntr" and room: "0 < remainingWords icntr"
  shows "control_vector (packed icntr line mode)"
proof -
  define n where "n = stored_len (strlen line) (remainingWords icntr)"
  note c = cvD[OF cv]
  note sb = stored_len_facts[OF room n_def]
  have f0: "packed icntr line mode ! 0 = icntr ! 0" and f25: "packed icntr line mode ! 25 = icntr ! 25"
    using c by (auto intro!: packed_nth_frame[OF cv room])
  have bl: "bufLen (packed icntr line mode) = bufLen icntr + (2 + INTS n)"
    using packed_fields(3)[OF cv room n_def] .
  show ?thesis
    unfolding control_vector_def using c sb bl f0 f25
    by (simp add: totLen_def bufStrt_def remainingWords_def startMsg_def)
qed

section \<open>Lengths and the result of GEwrite on a control vector\<close>

lemma cstr_take: "take (strlen line) line = cstr line"
  unfolding strlen_def cstr_def by (rule takeWhile_eq_take[symmetric])

lemma stored_len_ceil:
  "0 < r \<Longrightarrow> stored_len n r =
     (if ceil4 (min (int n) 256) \<le> r then min (int n) 256 else r * 4)"
  unfolding stored_len_def Let_def
  by (cases "n = 0") (auto simp: INTS_0 INTS_pos min_def ceil4_def)

lemma INTS_eq: "0 \<le> n \<Longrightarrow> INTS n = (if n = 0 then 1 else ceil4 n)"
  by (simp add: INTS_0 INTS_pos)

lemma GEwrite_cv:
  assumes cv: "control_vector icntr" and line: "strlen line < 2 ^ 31"
  shows "GEwrite W icntr line mode =
     Inr (debug_of W icntr line mode,
          if 0 < remainingWords icntr then packed icntr line mode else icntr)"
  using GEwrite_packed[OF cv line] GEwrite_noroom[OF cv]
  by (cases "0 < remainingWords icntr") simp_all

section \<open>The message packer\<close>

text \<open>
  Claim C1, as the code has it. For every control vector, every line of at most 256 bytes
  and every destination, if \<open>ceil (length / 4)\<close> is at most
  \<open>totalLength - (bufferStart + bufferConsumed + 2)\<close>, then \<open>GEwrite\<close> returns, the first word
  of the record's header holds the length of the line, the payload holds the line, and the
  counter of consumed words has grown by \<open>2 + INTS(length)\<close>, which is
  \<open>2 + ceil (length / 4)\<close> for a line that is not empty and 3 for the empty line.
\<close>

theorem C1_record:
  assumes cv: "control_vector icntr" and short: "strlen line \<le> 256"
    and cap: "ceil4 (int (strlen line)) \<le> totLen icntr - (bufStrt icntr + bufLen icntr + 2)"
  shows "\<exists>W' m. GEwrite W icntr line mode = Inr (W', m) \<and>
      sint (m ! nat (bufStrt icntr + bufLen icntr - 1)) = int (strlen line) \<and>
      load_bytes m (nat (4 * (bufStrt icntr + bufLen icntr + 1))) (strlen line) = cstr line \<and>
      bufLen m = bufLen icntr + 2 + (if strlen line = 0 then 1 else ceil4 (int (strlen line)))"
proof -
  let ?r = "remainingWords icntr"
  let ?n = "int (strlen line)"
  have c0: "0 \<le> ceil4 ?n" by (simp add: ceil4_def)
  have r: "?r = totLen icntr - (bufStrt icntr + bufLen icntr + 2) + 1"
    by (simp add: remainingWords_def startMsg_def)
  have room: "0 < ?r" using cap c0 r by simp
  have fit: "ceil4 (min ?n 256) \<le> ?r" using cap r short by (simp add: min_def)
  have n: "?n = stored_len (strlen line) ?r"
    using stored_len_ceil[OF room, of "strlen line"] fit short by (simp add: min_def)
  have line: "strlen line < 2 ^ 31" using short by simp
  have s2: "startMsg icntr - 2 = bufStrt icntr + bufLen icntr - 1" by (simp add: startMsg_def)
  have g: "GEwrite W icntr line mode = Inr (debug_of W icntr line mode, packed icntr line mode)"
    by (rule GEwrite_packed[OF cv line room])
  have "sint (packed icntr line mode ! nat (bufStrt icntr + bufLen icntr - 1)) = ?n"
    using packed_fields(1)[OF cv room n, of mode] by (simp only: s2)
  moreover have "load_bytes (packed icntr line mode) (nat (4 * (bufStrt icntr + bufLen icntr + 1))) (strlen line)
       = cstr line"
    using packed_fields(4)[OF cv room n, of mode] by (simp add: startMsg_def cstr_take)
  moreover have "bufLen (packed icntr line mode) =
      bufLen icntr + 2 + (if strlen line = 0 then 1 else ceil4 ?n)"
    using packed_fields(3)[OF cv room n, of mode] INTS_eq[of ?n] by simp
  ultimately show ?thesis using g by blast
qed

text \<open>
  The scenario of the specification: 64 words, buffer start 30, nothing consumed, a line
  of 10 bytes. The counter is 5 afterwards.
\<close>

theorem C1_record_witness:
  "control_vector icntr64 \<and> strlen ''0123456789'' \<le> 256 \<and>
   ceil4 (int (strlen ''0123456789'')) \<le> totLen icntr64 - (bufStrt icntr64 + bufLen icntr64 + 2) \<and>
   totLen icntr64 = 64 \<and> bufStrt icntr64 = 30 \<and> bufLen icntr64 = 0 \<and> strlen ''0123456789'' = 10 \<and>
   (\<exists>W' m. GEwrite W0 icntr64 ''0123456789'' TOLOG = Inr (W', m) \<and>
      sint (m ! 29) = 10 \<and> load_bytes m 124 10 = ''0123456789'' \<and> bufLen m = 5)"
proof -
  have h1: "control_vector icntr64" by code_simp
  have h2: "strlen ''0123456789'' \<le> 256" by code_simp
  have h3: "ceil4 (int (strlen ''0123456789'')) \<le> totLen icntr64 - (bufStrt icntr64 + bufLen icntr64 + 2)"
    by code_simp
  have v: "totLen icntr64 = 64" "bufStrt icntr64 = 30" "bufLen icntr64 = 0" "strlen ''0123456789'' = 10"
    "cstr ''0123456789'' = ''0123456789''"
    by code_simp+
  show ?thesis
    using h1 h2 h3 v C1_record[OF h1 h2 h3, of W0 TOLOG]
    by (simp add: ceil4_def)
qed

text \<open>
  The empty line meets the conditions of C1 and takes 3 words, not \<open>2 + ceil (0 / 4) = 2\<close>:
  \<open>INTS(0)\<close> is \<open>(0 - 1) / 4 + 1 = 1\<close>, since C's division truncates.
\<close>

theorem C1_counterexample:
  "control_vector icntr64 \<and> strlen [] \<le> 256 \<and>
   ceil4 (int (strlen [])) \<le> totLen icntr64 - (bufStrt icntr64 + bufLen icntr64 + 2) \<and>
   GEwrite W0 icntr64 [] TOLOG = Inr (W0, icntr64[30 := 2, 26 := 3]) \<and>
   bufLen (icntr64[30 := 2, 26 := 3]) = 3 \<and>
   bufLen icntr64 + 2 + ceil4 (int (strlen [])) = 2"
  by code_simp

text \<open>
  Claim C2, as the code has it. The words that remain are counted from the first payload
  word, whose index is \<open>bufferStart + bufferConsumed + 1\<close> (the buffer start counts from 1):
  for every control vector, line and destination, if
  \<open>totalLength - (bufferStart + bufferConsumed + 1) \<le> 0\<close> then \<open>GEwrite\<close> returns without a fault
  and the vector is the one it was given, so that the next call finds the state a first
  call would find. Only the debug sink may have received the line.
\<close>

theorem C2_noop:
  assumes cv: "control_vector icntr"
    and full: "totLen icntr - (bufStrt icntr + bufLen icntr + 1) \<le> 0"
  shows "GEwrite W icntr line mode = Inr (debug_of W icntr line mode, icntr)"
  using full by (intro GEwrite_noroom[OF cv]) (simp add: remainingWords_def startMsg_def)

text \<open>A vector of 32 words with two words consumed has no payload word left.\<close>

theorem C2_noop_witness:
  "control_vector (icntr32[26 := 2]) \<and>
   totLen (icntr32[26 := 2]) - (bufStrt (icntr32[26 := 2]) + bufLen (icntr32[26 := 2]) + 1) \<le> 0 \<and>
   GEwrite W0 (icntr32[26 := 2]) ''ab'' TOLOG = Inr (W0, icntr32[26 := 2])"
proof -
  have h1: "control_vector (icntr32[26 := 2])" by code_simp
  have h2: "totLen (icntr32[26 := 2]) - (bufStrt (icntr32[26 := 2]) + bufLen (icntr32[26 := 2]) + 1) \<le> 0"
    by code_simp
  have d: "debug_of W0 (icntr32[26 := 2]) ''ab'' TOLOG = W0" by code_simp
  show ?thesis using h1 h2 C2_noop[OF h1 h2, of W0 "''ab''" TOLOG] by (simp add: d)
qed

text \<open>
  With 32 words, buffer start 30 and nothing consumed, \<open>totalLength - (bufferStart +
  bufferConsumed + 2)\<close> is 0, and \<open>GEwrite\<close> still stores a record: one payload word is left.
\<close>

theorem C2_counterexample:
  "control_vector icntr32 \<and>
   totLen icntr32 - (bufStrt icntr32 + bufLen icntr32 + 2) \<le> 0 \<and>
   GEwrite W0 icntr32 ''ab'' TOLOG = Inr (W0, icntr32[31 := 25185, 29 := 2, 30 := 2, 26 := 3]) \<and>
   icntr32[31 := 25185, 29 := 2, 30 := 2, 26 := 3] \<noteq> icntr32 \<and>
   bufLen icntr32 = 0 \<and> bufLen (icntr32[31 := 25185, 29 := 2, 30 := 2, 26 := 3]) = 3"
  by code_simp

text \<open>
  Claim C3, as the code has it. The words that remain are counted from the first payload
  word (see C2): \<open>r = ints2write = totalLength - (bufferStart + bufferConsumed + 1)\<close>. For
  every control vector with \<open>r > 0\<close> and every line (shorter than \<open>2^31\<close> bytes, so that its
  length is an \<open>int\<close>), the length stored in the header is \<open>min (strlen line) 256\<close> when
  \<open>ceil (min (strlen line) 256 / 4) \<le> r\<close> and \<open>4 * r\<close> otherwise; a line longer than 256 bytes
  that fits is stored with length 256; the stored length is never more than 256 and never
  more than \<open>4 * r\<close>.
\<close>


theorem C3_stored_length:
  assumes cv: "control_vector icntr" and line: "strlen line < 2 ^ 31"
    and room: "0 < totLen icntr - (bufStrt icntr + bufLen icntr + 1)"
  shows "\<exists>W' m. GEwrite W icntr line mode = Inr (W', m) \<and>
      (let r = totLen icntr - (bufStrt icntr + bufLen icntr + 1);
           n = min (int (strlen line)) 256;
           stored = sint (m ! nat (bufStrt icntr + bufLen icntr - 1))
       in stored = (if ceil4 n \<le> r then n else r * 4) \<and>
          (256 < strlen line \<and> ceil4 256 \<le> r \<longrightarrow> stored = 256) \<and>
          stored \<le> 256 \<and> stored \<le> r * 4)"
proof -
  let ?r = "remainingWords icntr"
  define n where "n = stored_len (strlen line) ?r"
  have r: "?r = totLen icntr - (bufStrt icntr + bufLen icntr + 1)"
    by (simp add: remainingWords_def startMsg_def)
  have room': "0 < ?r" using room r by simp
  have s2: "startMsg icntr - 2 = bufStrt icntr + bufLen icntr - 1" by (simp add: startMsg_def)
  have g: "GEwrite W icntr line mode = Inr (debug_of W icntr line mode, packed icntr line mode)"
    by (rule GEwrite_packed[OF cv line room'])
  have st: "sint (packed icntr line mode ! nat (bufStrt icntr + bufLen icntr - 1)) = n"
    using packed_fields(1)[OF cv room' n_def, of mode] by (simp only: s2)
  have f: "n = (if ceil4 (min (int (strlen line)) 256) \<le> ?r then min (int (strlen line)) 256 else ?r * 4)"
    unfolding n_def by (rule stored_len_ceil[OF room'])
  have le: "n \<le> ?r * 4" "n \<le> 256"
    using stored_len_facts(4,5)[OF room' n_def] by simp_all
  have "(let r = ?r; n' = min (int (strlen line)) 256;
           stored = sint (packed icntr line mode ! nat (bufStrt icntr + bufLen icntr - 1))
       in stored = (if ceil4 n' \<le> r then n' else r * 4) \<and>
          (256 < strlen line \<and> ceil4 256 \<le> r \<longrightarrow> stored = 256) \<and>
          stored \<le> 256 \<and> stored \<le> r * 4)"
    unfolding Let_def st using f le by (auto simp: min_def)
  then show ?thesis using g unfolding r by blast
qed

text \<open>A line of 300 bytes in a vector of 100 words, where 69 words remain: 256 bytes are stored.\<close>

theorem C3_stored_length_witness:
  "control_vector ((replicate 100 0)[0 := 100, 25 := 30]) \<and>
   strlen (replicate 300 CHR ''a'') < 2 ^ 31 \<and>
   0 < totLen ((replicate 100 0)[0 := 100, 25 := 30]) -
       (bufStrt ((replicate 100 0)[0 := 100, 25 := 30]) + bufLen ((replicate 100 0)[0 := 100, 25 := 30]) + 1) \<and>
   256 < strlen (replicate 300 CHR ''a'') \<and>
   (\<exists>W' m. GEwrite W0 ((replicate 100 0)[0 := 100, 25 := 30]) (replicate 300 CHR ''a'') TOSTAT = Inr (W', m) \<and>
      sint (m ! 29) = 256)"
proof -
  let ?v = "(replicate 100 0)[0 := 100, 25 := 30] :: cint list"
  let ?l = "replicate 300 CHR ''a''"
  have h1: "control_vector ?v" by code_simp
  have sl: "strlen ?l = 300" by (simp add: strlen_def cstr_def NUL_def)
  have h2: "strlen ?l < 2 ^ 31" by (simp add: sl)
  have h3: "0 < totLen ?v - (bufStrt ?v + bufLen ?v + 1)" by code_simp
  have v: "totLen ?v = 100" "bufStrt ?v = 30" "bufLen ?v = 0"
    by code_simp+
  show ?thesis
    using h1 h2 h3 C3_stored_length[OF h1 h2 h3, of W0 TOSTAT]
    by (auto simp add: v sl Let_def ceil4_def)
qed

text \<open>
  With 64 words, buffer start 30 and 31 words consumed, \<open>totalLength - (bufferStart +
  bufferConsumed + 2)\<close> is 1: that capacity is positive, a line of 10 bytes does not fit in
  it, and the length stored should be \<open>1 * 4 = 4\<close>. \<open>GEwrite\<close> finds the two payload words 62
  and 63 and stores 8 bytes.
\<close>

theorem C3_counterexample:
  "control_vector icntr_tail \<and>
   0 < totLen icntr_tail - (bufStrt icntr_tail + bufLen icntr_tail + 2) \<and>
   ceil4 (min (int (strlen ''0123456789'')) 256) >
     totLen icntr_tail - (bufStrt icntr_tail + bufLen icntr_tail + 2) \<and>
   (totLen icntr_tail - (bufStrt icntr_tail + bufLen icntr_tail + 2)) * 4 = 4 \<and>
   GEwrite W0 icntr_tail ''0123456789'' TOLOG =
     Inr (W0, icntr_tail[62 := 858927408, 63 := 926299444, 60 := 8, 61 := 2, 26 := 35]) \<and>
   sint (icntr_tail[62 := 858927408, 63 := 926299444, 60 := 8, 61 := 2, 26 := 35] !
           nat (bufStrt icntr_tail + bufLen icntr_tail - 1)) = 8"
  by code_simp

lemma c_wrap_in: "- (2 ^ 31) \<le> v \<Longrightarrow> v < 2 ^ 31 \<Longrightarrow> c_wrap v = Inr v"
  by (simp add: c_wrap_def sint_word_of_int_c)

lemma GEwrite_wrap_full:
  assumes len: "28 \<le> length icntr"
    and rng: "bufStrt icntr + bufLen icntr + 1 < 2 ^ 31" "- (2 ^ 31) \<le> bufStrt icntr + bufLen icntr"
       "- (2 ^ 31) \<le> remainingWords icntr"
    and full: "remainingWords icntr \<le> 0"
  shows "GEwrite_wrap W icntr line mode = Inr (debug_of W icntr line mode, icntr)"
proof -
  have ne: "icntr \<noteq> []" using len by auto
  show ?thesis
    unfolding GEwrite_wrap_def using len rng full ne
    by (simp add: I_defs Let_def debug_of_def remainingWords_def startMsg_def totLen_def bufStrt_def bufLen_def c_wrap_in)
qed

lemma GEwrite_wrap_room:
  assumes len: "28 \<le> length icntr"
    and rng: "bufStrt icntr + bufLen icntr + 1 < 2 ^ 31"
    and room: "0 < remainingWords icntr"
    and hdr: "1 \<le> bufStrt icntr + bufLen icntr"
    and tot: "totLen icntr \<le> int (length icntr)"
    and line: "strlen line < 2 ^ 31"
    and n: "n = stored_len (strlen line) (remainingWords icntr)"
    and m3: "m3 = header_stored icntr line n mode"
  shows "GEwrite_wrap W icntr line mode =
     Inr (debug_of W icntr line mode, m3[26 := word_of_int (sint (m3 ! 26) + (2 + INTS n))])"
proof -
  let ?r = "remainingWords icntr"
  let ?s = "startMsg icntr"
  have sb: "0 \<le> n" "n \<le> int (strlen line)" "n \<le> 256" "n \<le> 4 * ?r" "INTS n \<le> ?r"
    using stored_len_bounds[OF room, of "strlen line"] n by simp_all
  have ll: "int (strlen line) \<le> int (length line)"
    by (simp add: strlen_def cstr_def length_takeWhile_le)
  have r1: "- (2 ^ 31) \<le> bufStrt icntr + bufLen icntr" using hdr by simp
  have r3: "?r < 2 ^ 31" "- (2 ^ 31) \<le> ?r"
    using sint_c_range[of "icntr ! 0"] hdr room
    unfolding remainingWords_def startMsg_def totLen_def by simp_all
  have s2: "2 \<le> ?s" "?s < int (length icntr)"
    using hdr room tot by (simp_all add: startMsg_def remainingWords_def)
  have nb: "(if ?r < INTS (if 256 < int (strlen line) then 256 else int (strlen line))
             then c_wrap (?r * 4)
             else Inr (if 256 < int (strlen line) then 256 else int (strlen line))) = Inr n"
    using n sb r3 unfolding stored_len_def Let_def by (auto simp: c_wrap_in)
  have mc: "memcpy icntr ?s line n = Inr (store_bytes icntr (nat (4 * ?s)) (take (nat n) line))"
    unfolding memcpy_def using sb ll s2 room tot by (simp add: remainingWords_def)
  have lm3: "length m3 = length icntr" by (simp add: m3 header_stored_def)
  have ne: "icntr \<noteq> []" using len by auto
  have rw: "sint (icntr ! 0) - ?s = ?r"
    by (simp add: remainingWords_def totLen_def)
  have sw: "sint (icntr ! 25) + sint (icntr ! 26) + 1 = ?s"
    by (simp add: startMsg_def bufStrt_def bufLen_def)
  have c1: "c_wrap (sint (icntr ! 25) + sint (icntr ! 26)) = Inr (sint (icntr ! 25) + sint (icntr ! 26))"
    using r1 rng by (intro c_wrap_in) (simp_all add: bufStrt_def bufLen_def)
  have c2: "c_wrap ?s = Inr ?s" using r1 rng by (intro c_wrap_in) (simp_all add: startMsg_def)
  have c3: "c_wrap ?r = Inr ?r" using r3 by (intro c_wrap_in)
  have c4: "c_wrap (int (strlen line)) = Inr (int (strlen line))" using line by (intro c_wrap_in) simp_all
  have w1: "wr (store_bytes icntr (nat (4 * ?s)) (take (nat n) line)) (?s - 2) n
      = Inr ((store_bytes icntr (nat (4 * ?s)) (take (nat n) line))[nat (?s - 2) := word_of_int n])"
    using s2 by simp
  have w2: "wr ((store_bytes icntr (nat (4 * ?s)) (take (nat n) line))[nat (?s - 2) := word_of_int n]) (?s - 1) mode
      = Inr m3"
    using s2 by (simp add: m3 header_stored_def)
  have r26: "rd m3 I_BufLen = Inr (sint (m3 ! 26))" using lm3 len by (simp add: I_defs)
  have w3: "wr m3 I_BufLen (sint (word_of_int v :: cint)) = Inr (m3[26 := word_of_int v])" for v
    using lm3 len by (simp add: I_defs)
  have d: "rd icntr I_Debug = Inr (sint (icntr ! 27))" "rd icntr I_BufStrt = Inr (sint (icntr ! 25))"
     "rd icntr I_BufLen = Inr (sint (icntr ! 26))" "rd icntr I_Length = Inr (sint (icntr ! 0))"
    using len ne by (simp_all add: I_defs)
  have nr: "(?r \<le> 0) = False" using room by simp
  show ?thesis
    unfolding GEwrite_wrap_def
    by (simp only: d bnd_simps Let_def c1 sw c2 rw c3 c4 nr if_False nb mc w1 w2 r26 c_wrap_def[of "sint (m3 ! 26) + (2 + INTS n)"] w3 debug_of_def)
qed

text \<open>
  Claim C9, with the sums in range. For every vector that holds the header fields, with
  \<open>bufferStart \<ge> 1\<close>, \<open>bufferConsumed \<ge> 0\<close>, \<open>totalLength\<close> equal to its length and
  \<open>bufferStart + bufferConsumed + 1\<close> an \<open>int\<close>, and every line shorter than \<open>2^31\<close> bytes, no
  access of \<open>GEwrite\<close> falls outside the vector, and computed with wrap-around the call
  returns a vector of the same length; \<open>GEwrite\<close> returns the same, or stops on the overflow
  of the counter update. When no word remains the vector is returned as it was. When
  words remain, the header words at \<open>bufferStart + bufferConsumed - 1\<close> and \<open>bufferStart +
  bufferConsumed\<close> have indices in the vector, the payload bytes lie inside it, and the
  vector returned holds the payload, the two header words and the counter. The counter
  update can only overflow when the record has overwritten the counter (a buffer that
  starts inside the header fields): with the record behind word 26 the call returns the
  packed vector.
\<close>

theorem C9_stores_in_bounds:
  assumes len: "28 \<le> length icntr"
    and bs: "1 \<le> bufStrt icntr" and bl: "0 \<le> bufLen icntr"
    and tot: "totLen icntr = int (length icntr)"
    and sum: "bufStrt icntr + bufLen icntr + 1 < 2 ^ 31"
    and line: "strlen line < 2 ^ 31"
  shows "GEwrite W icntr line mode \<noteq> Inl OutOfBounds \<and>
     (\<exists>W' m. GEwrite_wrap W icntr line mode = Inr (W', m) \<and> length m = length icntr \<and>
        (GEwrite W icntr line mode = Inr (W', m) \<or>
         GEwrite W icntr line mode = Inl IntOverflow)) \<and>
     (remainingWords icntr \<le> 0 \<longrightarrow>
        GEwrite W icntr line mode = Inr (debug_of W icntr line mode, icntr)) \<and>
     (0 < remainingWords icntr \<longrightarrow>
        (let n = stored_len (strlen line) (remainingWords icntr);
             m3 = header_stored icntr line n mode
         in 0 \<le> bufStrt icntr + bufLen icntr - 1 \<and>
            bufStrt icntr + bufLen icntr < int (length icntr) \<and>
            0 \<le> 4 * startMsg icntr \<and> 0 \<le> n \<and>
            4 * startMsg icntr + n \<le> 4 * int (length icntr) \<and>
            GEwrite_wrap W icntr line mode =
              Inr (debug_of W icntr line mode,
                   m3[26 := word_of_int (sint (m3 ! 26) + (2 + INTS n))]) \<and>
            (28 \<le> bufStrt icntr + bufLen icntr \<longrightarrow>
               GEwrite W icntr line mode =
                 Inr (debug_of W icntr line mode, packed icntr line mode))))"
proof (cases "0 < remainingWords icntr")
  case False
  then have full: "remainingWords icntr \<le> 0" by simp
  have lo: "- (2 ^ 31) \<le> remainingWords icntr"
    using sum tot by (simp add: remainingWords_def startMsg_def)
  have g: "GEwrite W icntr line mode = Inr (debug_of W icntr line mode, icntr)"
    using len sum full lo bs bl by (intro GEwrite_full) simp_all
  have w: "GEwrite_wrap W icntr line mode = Inr (debug_of W icntr line mode, icntr)"
    using len sum full lo bs bl by (intro GEwrite_wrap_full) simp_all
  show ?thesis using False g w by simp
next
  case room: True
  define n where "n = stored_len (strlen line) (remainingWords icntr)"
  define m3 where "m3 = header_stored icntr line n mode"
  define c where "c = sint (m3 ! 26) + (2 + INTS n)"
  note sb = stored_len_facts[OF room n_def]
  have idx: "0 \<le> bufStrt icntr + bufLen icntr - 1" "bufStrt icntr + bufLen icntr < int (length icntr)"
    "0 \<le> 4 * startMsg icntr" "4 * startMsg icntr + n \<le> 4 * int (length icntr)"
    using sb(5) room bs bl tot by (simp_all add: remainingWords_def startMsg_def)
  have g: "GEwrite W icntr line mode =
       bnd (c_int c) (\<lambda>new. Inr (debug_of W icntr line mode, m3[26 := word_of_int new]))"
    unfolding c_def using len room bs bl tot sum line n_def m3_def by (intro GEwrite_room) simp_all
  have w: "GEwrite_wrap W icntr line mode =
       Inr (debug_of W icntr line mode, m3[26 := word_of_int c])"
    unfolding c_def using len room bs bl tot sum line n_def m3_def
    by (intro GEwrite_wrap_room) simp_all
  have lm: "length (m3[26 := word_of_int c]) = length icntr" by (simp add: m3_def)
  have clo: "- (2 ^ 31) \<le> c"
    using sint_c_range(1)[of "m3 ! 26"] sb(7) by (simp add: c_def)
  have gc: "GEwrite W icntr line mode =
      (if c < 2 ^ 31 then Inr (debug_of W icntr line mode, m3[26 := word_of_int c])
       else Inl IntOverflow)"
    unfolding g using clo by (simp add: c_int_def)
  have pk: "GEwrite W icntr line mode = Inr (debug_of W icntr line mode, packed icntr line mode)"
    if far: "28 \<le> bufStrt icntr + bufLen icntr"
  proof -
    have m26: "m3 ! 26 = icntr ! 26" unfolding m3_def using far by (rule header_stored_26)
    have ceq: "c = bufLen icntr + (2 + INTS n)" by (simp add: c_def m26 bufLen_def)
    have "c \<le> totLen icntr" using sb(6) bs unfolding ceq
      by (simp add: remainingWords_def startMsg_def)
    then have "c < 2 ^ 31" using sint_c_range(2)[of "icntr ! 0"] by (simp add: totLen_def)
    then show ?thesis unfolding gc
      by (simp add: packed_def Let_def n_def[symmetric] m3_def[symmetric] ceq)
  qed
  have ex: "\<exists>W' m. GEwrite_wrap W icntr line mode = Inr (W', m) \<and> length m = length icntr \<and>
        (GEwrite W icntr line mode = Inr (W', m) \<or>
         GEwrite W icntr line mode = Inl IntOverflow)"
    using w lm gc by (cases "c < 2 ^ 31") simp_all
  have nob: "GEwrite W icntr line mode \<noteq> Inl OutOfBounds"
    unfolding gc by simp
  show ?thesis
    using room nob ex idx sb(1) w pk
    by (simp only: Let_def n_def[symmetric] m3_def[symmetric] c_def[symmetric]) simp
qed

text \<open>
  A line of 10 bytes into the empty buffer of 64 words, and a line into a buffer that
  starts at position 1, inside the header fields.
\<close>

theorem C9_stores_in_bounds_witness:
  "28 \<le> length icntr64 \<and> 1 \<le> bufStrt icntr64 \<and> 0 \<le> bufLen icntr64 \<and>
   totLen icntr64 = int (length icntr64) \<and>
   bufStrt icntr64 + bufLen icntr64 + 1 < 2 ^ 31 \<and> strlen ''0123456789'' < 2 ^ 31 \<and>
   0 < remainingWords icntr64 \<and> 28 \<le> bufStrt icntr64 + bufLen icntr64 \<and>
   GEwrite W0 icntr64 ''0123456789'' TOLOG \<noteq> Inl OutOfBounds \<and>
   GEwrite W0 icntr64 ''0123456789'' TOLOG =
     Inr (debug_of W0 icntr64 ''0123456789'' TOLOG, packed icntr64 ''0123456789'' TOLOG) \<and>
   bufStrt icntr64 + bufLen icntr64 < int (length icntr64) \<and>
   4 * startMsg icntr64 + stored_len (strlen ''0123456789'') (remainingWords icntr64)
     \<le> 4 * int (length icntr64) \<and>
   1 \<le> bufStrt (icntr64[25 := 1]) \<and>
   (\<exists>W' m. GEwrite_wrap W0 (icntr64[25 := 1]) ''ab'' TOLOG = Inr (W', m) \<and>
      length m = length (icntr64[25 := 1]))"
proof -
  let ?u = "icntr64[25 := 1]"
  have h: "28 \<le> length icntr64" "1 \<le> bufStrt icntr64" "0 \<le> bufLen icntr64"
    "totLen icntr64 = int (length icntr64)" "bufStrt icntr64 + bufLen icntr64 + 1 < 2 ^ 31"
    by code_simp+
  have k: "28 \<le> length ?u" "1 \<le> bufStrt ?u" "0 \<le> bufLen ?u"
    "totLen ?u = int (length ?u)" "bufStrt ?u + bufLen ?u + 1 < 2 ^ 31"
    by code_simp+
  have l1: "strlen ''0123456789'' < 2 ^ 31" by (simp add: strlen_def cstr_def NUL_def)
  have l2: "strlen ''ab'' < 2 ^ 31" by (simp add: strlen_def cstr_def NUL_def)
  have r: "0 < remainingWords icntr64" "28 \<le> bufStrt icntr64 + bufLen icntr64" by code_simp+
  have a: "\<exists>W' m. GEwrite_wrap W0 ?u ''ab'' TOLOG = Inr (W', m) \<and> length m = length ?u"
    using C9_stores_in_bounds[OF k l2, of W0 TOLOG] by blast
  show ?thesis
    using h k(2) l1 r a C9_stores_in_bounds[OF h l1, of W0 TOLOG]
    by (simp add: Let_def)
qed

text \<open>
  A buffer start and a counter that are both the largest \<open>int\<close> meet the conditions of C9.
  Their sum overflows, which C leaves undefined. Computed with wrap-around, \<open>startMsg\<close> is
  \<open>- 1\<close>, 65 words seem to remain, and the payload goes to \<open>icntr - 1\<close>, outside the vector.
\<close>

theorem C9_counterexample:
  "28 \<le> length icntr_huge \<and> 1 \<le> bufStrt icntr_huge \<and> 0 \<le> bufLen icntr_huge \<and>
   totLen icntr_huge = int (length icntr_huge) \<and>
   GEwrite W0 icntr_huge ''ab'' TOLOG = Inl IntOverflow \<and>
   bnd (c_wrap (bufStrt icntr_huge + bufLen icntr_huge)) (\<lambda>s0. c_wrap (s0 + 1)) = Inr (- 1) \<and>
   GEwrite_wrap W0 icntr_huge ''ab'' TOLOG = Inl OutOfBounds"
  by code_simp

text \<open>The checks are not idle: a buffer start beyond the end of the vector is caught.\<close>

lemma GEwrite_out_of_bounds_example:
  "GEwrite W0 ((replicate 64 0)[0 := 100, 25 := 70]) ''ab'' TOLOG = Inl OutOfBounds"
  by code_simp

section \<open>The string extractor\<close>

lemma load_bytes_take: "k \<le> n \<Longrightarrow> take k (load_bytes m p n) = load_bytes m p k"
  by (simp add: load_bytes_def take_map)

lemma length_load_bytes [simp]: "length (load_bytes m p n) = n"
  by (simp add: load_bytes_def)

lemma cstr_no_NUL: "NUL \<notin> set s \<Longrightarrow> cstr s = s"
  unfolding cstr_def by (induction s) auto

lemma cstr_short: "NUL \<in> set s \<Longrightarrow> length (cstr s) < length s"
  unfolding cstr_def by (induction s) auto

lemma NUL_notin_cstr: "NUL \<notin> set (cstr s)"
  unfolding cstr_def by (auto dest: set_takeWhileD)

lemma GEname_negative:
  assumes "12 \<le> length icntr" "slot_count icntr < 0"
  shows "GEname icntr buf B = Inr (- 1, buf)"
  using assms unfolding GEname_def by (simp add: slot_count_def)

lemma GEname_copy:
  assumes len: "12 \<le> length icntr" and C: "0 \<le> slot_count icntr"
    and B: "0 \<le> B" "B \<le> int (length buf)"
    and n: "n = nat (min (slot_count icntr) B)"
    and s: "s = cstr (take n (slot_bytes icntr))"
  shows "GEname icntr buf B =
     (if slot_readable icntr n
      then Inr (int n, s @ replicate (n - length s) NUL @
                  (if int n < B then NUL # drop (Suc n) buf else drop n buf))
      else Inl OutOfBounds)"
proof -
  define frm where "frm = slot_bytes icntr"
  have nB: "int n \<le> B" and nn: "int n = min (slot_count icntr) B"
    using n C B by simp_all
  have ls: "length s \<le> n"
    unfolding s cstr_def
    by (rule order_trans[OF length_takeWhile_le]) simp
  have sc: "strncpy buf frm (int n) =
      (if slot_readable icntr n then Inr (s @ replicate (n - length s) NUL @ drop n buf)
       else Inl OutOfBounds)"
    unfolding strncpy_def slot_readable_def using nB B
    by (auto simp add: Let_def s frm_def)
  have r: "rd icntr 11 = Inr (slot_count icntr)" "rd icntr 10 = Inr (slot_offset icntr)"
    using len by (simp_all add: slot_count_def slot_offset_def)
  have nch: "(if B < slot_count icntr then B else slot_count icntr) = int n"
    using nn by (simp add: min_def)
  have c1: "(slot_count icntr < 0) = False" using C by simp
  have fb: "(if 0 \<le> 4 * (slot_offset icntr - 1) \<and> 4 * (slot_offset icntr - 1) \<le> 4 * int (length icntr)
             then load_bytes icntr (nat (4 * (slot_offset icntr - 1)))
                    (4 * length icntr - nat (4 * (slot_offset icntr - 1)))
             else []) = frm"
    by (simp only: frm_def slot_bytes_def Let_def)
  have stn: "st (s @ replicate (n - length s) NUL @ drop n buf) (int n) NUL =
      Inr (s @ replicate (n - length s) NUL @ NUL # drop (Suc n) buf)" if "int n < B"
  proof -
    have "n < length buf" using that B by simp
    then have "drop n buf = buf ! n # drop (Suc n) buf" by (simp add: Cons_nth_drop_Suc)
    then show ?thesis using ls that B by (simp add: st_def list_update_append)
  qed
  have "GEname icntr buf B =
     bnd (if slot_readable icntr n then Inr (s @ replicate (n - length s) NUL @ drop n buf)
          else Inl OutOfBounds) (\<lambda>b1.
     if int n < B then bnd (st b1 (int n) NUL) (\<lambda>b2. Inr (int n, b2))
     else Inr (int n, b1))"
    unfolding GEname_def
    by (simp only: r bnd_simps c1 if_False Let_def nch fb sc)
  then show ?thesis using stn by simp
qed

text \<open>
  Claim C5. For every control vector, with \<open>C\<close> the declared count of its string slot, and
  every output buffer of capacity \<open>B\<close> (\<open>0 \<le> B\<close>, and the buffer has \<open>B\<close> bytes): when \<open>C < 0\<close>,
  \<open>GEname\<close> returns \<open>- 1\<close> and leaves the buffer as it was. When \<open>C \<ge> 0\<close> and the \<open>min C B\<close> bytes
  to copy can be read inside the vector (as they always can when \<open>min C B = 0\<close>, whatever
  the position of the slot), \<open>GEname\<close> returns \<open>min C B\<close>. When this count is less than \<open>B\<close>, the
  byte at that position is set to null and the bytes behind it are untouched; when it is
  \<open>B\<close>, no byte at or behind that position is touched. The bytes before it are the slot
  string up to its first null byte, filled up with null bytes, so that the first \<open>B\<close> bytes
  of the buffer hold a null byte if and only if the count is less than \<open>B\<close> or the copied
  characters hold one; characters without a null byte are copied as they are. When the
  bytes to copy are not all inside the vector, the call reads outside it.
\<close>

theorem C5_GEname:
  assumes len: "12 \<le> length icntr" and B: "0 \<le> B" "B \<le> int (length buf)"
  shows "if slot_count icntr < 0 then GEname icntr buf B = Inr (- 1, buf)
     else if \<not> slot_readable icntr (nat (min (slot_count icntr) B))
     then GEname icntr buf B = Inl OutOfBounds
     else \<exists>ret buf'. GEname icntr buf B = Inr (ret, buf') \<and>
        ret = min (slot_count icntr) B \<and> length buf' = length buf \<and>
        (ret < B \<longrightarrow> buf' ! nat ret = NUL \<and>
                     drop (Suc (nat ret)) buf' = drop (Suc (nat ret)) buf) \<and>
        (\<not> ret < B \<longrightarrow> drop (nat ret) buf' = drop (nat ret) buf) \<and>
        take (nat ret) buf' =
          cstr (take (nat ret) (slot_bytes icntr)) @
          replicate (nat ret - strlen (take (nat ret) (slot_bytes icntr))) NUL \<and>
        (NUL \<in> set (take (nat B) buf') \<longleftrightarrow>
           ret < B \<or> NUL \<in> set (take (nat ret) (slot_bytes icntr))) \<and>
        (NUL \<notin> set (take (nat ret) (slot_bytes icntr)) \<longrightarrow>
           take (nat ret) buf' = take (nat ret) (slot_bytes icntr))"
proof (cases "slot_count icntr < 0")
  case True
  then show ?thesis using GEname_negative[OF len True] by simp
next
  case False
  then have C: "0 \<le> slot_count icntr" by simp
  define n where "n = nat (min (slot_count icntr) B)"
  define t where "t = take n (slot_bytes icntr)"
  define s where "s = cstr t"
  define pad where "pad = s @ replicate (n - length s) NUL"
  define b where "b = pad @ (if int n < B then NUL # drop (Suc n) buf else drop n buf)"
  have nn: "int n = min (slot_count icntr) B" using n_def C B by simp
  have g: "GEname icntr buf B = (if slot_readable icntr n then Inr (int n, b) else Inl OutOfBounds)"
    unfolding b_def pad_def using GEname_copy[OF len C B n_def] s_def t_def by simp
  show ?thesis
  proof (cases "slot_readable icntr n")
    case nr: False
    then show ?thesis using False g n_def by simp
  next
    case rd: True
    have lt: "length t \<le> n" by (simp add: t_def)
    have ls: "length s \<le> n"
      unfolding s_def cstr_def using lt by (metis length_takeWhile_le order_trans)
    have lp: "length pad = n" using ls by (simp add: pad_def)
    have nB: "n \<le> nat B" "nat B \<le> length buf" using nn B by simp_all
    have l: "length b = length buf" using lp nB by (auto simp: b_def)
    have tk: "take n b = pad" using lp by (simp add: b_def)
    have d: "drop (Suc n) b = drop (Suc n) buf" if "int n < B" using lp that by (simp add: b_def)
    have d0: "drop n b = drop n buf" if "\<not> int n < B" using lp that by (simp add: b_def)
    have z: "b ! n = NUL" if "int n < B" using that lp by (simp add: b_def nth_append)
    have full: "length t = n" if "NUL \<notin> set t"
    proof (rule ccontr)
      assume "length t \<noteq> n"
      then have sh: "length (slot_bytes icntr) < n" using lt by (simp add: t_def)
      then have "t = slot_bytes icntr" by (simp add: t_def)
      then show False using rd sh that by (simp add: slot_readable_def)
    qed
    have clean: "pad = t" if "NUL \<notin> set t"
      using cstr_no_NUL[OF that] full[OF that] by (simp add: pad_def s_def)
    have padnul: "NUL \<in> set pad \<longleftrightarrow> NUL \<in> set t"
    proof
      assume "NUL \<in> set t"
      then have "length s < n" using cstr_short[of t] lt by (simp add: s_def)
      then show "NUL \<in> set pad" by (simp add: pad_def)
    next
      assume "NUL \<in> set pad"
      then show "NUL \<in> set t" using clean by (cases "NUL \<in> set t") simp_all
    qed
    have pres: "NUL \<in> set (take (nat B) b) \<longleftrightarrow> int n < B \<or> NUL \<in> set t"
    proof (cases "int n < B")
      case True
      then have "n < nat B" "n < length b" using l nB by simp_all
      then have "take (nat B) b ! n = NUL" "n < length (take (nat B) b)" using z[OF True] by simp_all
      then show ?thesis using True by (metis nth_mem)
    next
      case False
      then have "nat B = n" using nB by simp
      then have "take (nat B) b = pad" using tk by simp
      then show ?thesis using padnul False by simp
    qed
    have ex: "GEname icntr buf B = Inr (int n, b)" using g rd by simp
    have ret: "min (slot_count icntr) B = int n" using nn by simp
    have rdb: "slot_readable icntr (nat (min (slot_count icntr) B))" using rd n_def by simp
    have body: "length b = length buf \<and>
        (int n < B \<longrightarrow> b ! n = NUL \<and> drop (Suc n) b = drop (Suc n) buf) \<and>
        (\<not> int n < B \<longrightarrow> drop n b = drop n buf) \<and>
        take n b = cstr t @ replicate (n - strlen t) NUL \<and>
        (NUL \<in> set (take (nat B) b) \<longleftrightarrow> int n < B \<or> NUL \<in> set t) \<and>
        (NUL \<notin> set t \<longrightarrow> take n b = t)"
      using l z d d0 pres clean tk
      by (simp add: strlen_def s_def[symmetric] pad_def[symmetric])
    have "\<exists>ret buf'. GEname icntr buf B = Inr (ret, buf') \<and>
        ret = int n \<and> length buf' = length buf \<and>
        (ret < B \<longrightarrow> buf' ! nat ret = NUL \<and>
                     drop (Suc (nat ret)) buf' = drop (Suc (nat ret)) buf) \<and>
        (\<not> ret < B \<longrightarrow> drop (nat ret) buf' = drop (nat ret) buf) \<and>
        take (nat ret) buf' =
          cstr (take (nat ret) (slot_bytes icntr)) @
          replicate (nat ret - strlen (take (nat ret) (slot_bytes icntr))) NUL \<and>
        (NUL \<in> set (take (nat B) buf') \<longleftrightarrow>
           ret < B \<or> NUL \<in> set (take (nat ret) (slot_bytes icntr))) \<and>
        (NUL \<notin> set (take (nat ret) (slot_bytes icntr)) \<longrightarrow>
           take (nat ret) buf' = take (nat ret) (slot_bytes icntr))"
      using ex body by (auto simp add: t_def[symmetric])
    then have E: "\<exists>ret buf'. GEname icntr buf B = Inr (ret, buf') \<and>
        ret = min (slot_count icntr) B \<and> length buf' = length buf \<and>
        (ret < B \<longrightarrow> buf' ! nat ret = NUL \<and>
                     drop (Suc (nat ret)) buf' = drop (Suc (nat ret)) buf) \<and>
        (\<not> ret < B \<longrightarrow> drop (nat ret) buf' = drop (nat ret) buf) \<and>
        take (nat ret) buf' =
          cstr (take (nat ret) (slot_bytes icntr)) @
          replicate (nat ret - strlen (take (nat ret) (slot_bytes icntr))) NUL \<and>
        (NUL \<in> set (take (nat B) buf') \<longleftrightarrow>
           ret < B \<or> NUL \<in> set (take (nat ret) (slot_bytes icntr))) \<and>
        (NUL \<notin> set (take (nat ret) (slot_bytes icntr)) \<longrightarrow>
           take (nat ret) buf' = take (nat ret) (slot_bytes icntr))"
      by (simp only: ret)
    have c1: "(slot_count icntr < 0) = False" using False by simp
    have c2: "(\<not> slot_readable icntr (nat (min (slot_count icntr) B))) = False"
      using rdb by simp
    show ?thesis by (simp only: c1 c2 if_False) (rule E)
  qed
qed

lemma icntr_name_facts:
  "length icntr_name = 32" "slot_count icntr_name = 3" "slot_offset icntr_name = 29"
  "take 3 (slot_bytes icntr_name) = ''abc''" "slot_readable icntr_name 3"
proof -
  let ?base = "(replicate 32 0)[0 := 32, 10 := 29, 11 := 3, 25 := 30] :: cint list"
  show l: "length icntr_name = 32" by (simp add: icntr_name_def)
  have "icntr_name ! 11 = ?base ! 11" "icntr_name ! 10 = ?base ! 10"
    unfolding icntr_name_def by (rule store_bytes_nth_below, simp)+
  then show c: "slot_count icntr_name = 3" "slot_offset icntr_name = 29"
    by (simp_all add: slot_count_def slot_offset_def)
  have sb: "slot_bytes icntr_name = load_bytes icntr_name 112 16"
    by (simp add: slot_bytes_def c l)
  have "load_bytes icntr_name 112 3 = ''abc''"
    using load_store_bytes[of 112 "''abc''" ?base] unfolding icntr_name_def
    by (simp add: numeral_3_eq_3)
  then show "take 3 (slot_bytes icntr_name) = ''abc''"
    unfolding sb by (simp add: load_bytes_take)
  show "slot_readable icntr_name 3"
    unfolding slot_readable_def sb by simp
qed

text \<open>
  A slot that is all zero (no string, position 0) with a buffer of 3 bytes: the count is 0
  and the first byte is set to null. The string \<open>abc\<close> into a buffer of 8 bytes
  (terminated) and into a buffer of 3 bytes (not terminated); and a negative count.
\<close>

theorem C5_GEname_witness:
  "12 \<le> length icntr_noslot \<and> (0::int) \<le> 3 \<and> 3 \<le> int (length ''xxx'') \<and>
   slot_count icntr_noslot = 0 \<and> slot_offset icntr_noslot = 0 \<and>
   (\<exists>ret buf'. GEname icntr_noslot ''xxx'' 3 = Inr (ret, buf') \<and> ret = 0 \<and>
      buf' ! 0 = NUL \<and> drop 1 buf' = ''xx'') \<and>
   12 \<le> length icntr_name \<and> (0::int) \<le> 8 \<and> 8 \<le> int (length ''xxxxxxxx'') \<and>
   (\<exists>ret buf'. GEname icntr_name ''xxxxxxxx'' 8 = Inr (ret, buf') \<and> ret = 3 \<and>
      take 3 buf' = ''abc'' \<and> buf' ! 3 = NUL \<and> NUL \<in> set (take 8 buf')) \<and>
   (\<exists>ret buf'. GEname icntr_name ''xxx'' 3 = Inr (ret, buf') \<and> ret = 3 \<and>
      take 3 buf' = ''abc'' \<and> NUL \<notin> set (take 3 buf')) \<and>
   12 \<le> length (icntr_name[11 := - 1]) \<and>
   GEname (icntr_name[11 := - 1]) ''xxx'' 3 = Inr (- 1, ''xxx'')"
proof -
  note c = icntr_name_facts
  have z: "length icntr_noslot = 32" "slot_count icntr_noslot = 0" "slot_offset icntr_noslot = 0"
    "slot_bytes icntr_noslot = []"
    by code_simp+
  have zr: "slot_readable icntr_noslot 0" by (simp add: slot_readable_def)
  have h0: "12 \<le> length icntr_noslot" by (simp add: z)
  have h1: "12 \<le> length icntr_name" by (simp add: c)
  have h2: "12 \<le> length (icntr_name[11 := - 1])" by (simp add: c)
  have c2: "slot_count (icntr_name[11 := - 1]) = - 1"
    by (simp add: slot_count_def c)
  have nn: "NUL \<notin> set ''abc''" by (simp add: NUL_def)
  have b8: "(0::int) \<le> 8" "8 \<le> int (length ''xxxxxxxx'')" by simp_all
  have b3: "(0::int) \<le> 3" "3 \<le> int (length ''xxx'')" by simp_all
  have w0: "\<exists>ret buf'. GEname icntr_noslot ''xxx'' 3 = Inr (ret, buf') \<and> ret = 0 \<and>
      buf' ! 0 = NUL \<and> drop 1 buf' = ''xx''"
    using C5_GEname[OF h0 b3] zr by (simp add: z) blast
  have w8: "\<exists>ret buf'. GEname icntr_name ''xxxxxxxx'' 8 = Inr (ret, buf') \<and> ret = 3 \<and>
      take 3 buf' = ''abc'' \<and> buf' ! 3 = NUL \<and> NUL \<in> set (take 8 buf')"
    using C5_GEname[OF h1 b8] c(5) nn by (simp add: c(1-4)) blast
  have w3: "\<exists>ret buf'. GEname icntr_name ''xxx'' 3 = Inr (ret, buf') \<and> ret = 3 \<and>
      take 3 buf' = ''abc'' \<and> NUL \<notin> set (take 3 buf')"
    using C5_GEname[OF h1 b3] c(5) nn by (simp add: c(1-4)) blast
  have wn: "GEname (icntr_name[11 := - 1]) ''xxx'' 3 = Inr (- 1, ''xxx'')"
    using C5_GEname[OF h2 b3] by (simp add: c2)
  show ?thesis using h0 h1 h2 z w0 w8 w3 wn by simp
qed

section \<open>Records in the buffer\<close>

lemma parse_records_same [simp]: "parse_records m e e k = Some []"
  by (cases k) simp_all

lemma parse_records_fuel:
  "parse_records m p e k = Some rs \<Longrightarrow> k \<le> k' \<Longrightarrow> parse_records m p e k' = Some rs"
proof (induction k arbitrary: p rs k')
  case 0
  then show ?case by (simp split: if_splits)
next
  case (Suc k)
  then obtain j where k': "k' = Suc j" "k \<le> j" by (cases k') auto
  show ?case
  proof (cases "p = e")
    case True
    then show ?thesis using Suc.prems by simp
  next
    case False
    then show ?thesis using Suc.prems(1) Suc.IH[OF _ k'(2)] unfolding k'
      by (auto simp: Let_def split: if_splits)
  qed
qed

lemma parse_records_append:
  assumes "parse_records m p e k = Some rs"
    and frame: "\<And>i. p0 \<le> i \<Longrightarrow> i < e \<Longrightarrow> m' ! i = m ! i"
    and hdr: "sint (m' ! e) = n" "0 \<le> n" "sint (m' ! (e + 1)) = dest"
    and e': "e' = e + 2 + nat (INTS n)"
    and p: "p0 \<le> p"
  shows "parse_records m' p e' (Suc k) = Some (rs @ [(dest, load_bytes m' (4 * (e + 2)) (nat n))])"
  using assms(1) p
proof (induction k arbitrary: p rs)
  case 0
  then have "p = e" "rs = []" by (simp_all split: if_splits)
  then show ?case using hdr e' by simp
next
  case (Suc k)
  show ?case
  proof (cases "p = e")
    case True
    then have "rs = []" using Suc.prems by simp
    then show ?thesis using True hdr e' by simp
  next
    case False
    define n0 where "n0 = sint (m ! p)"
    define q where "q = p + 2 + nat (INTS n0)"
    from Suc.prems(1) False obtain rs0 where
      ok: "0 \<le> n0" "q \<le> e" and rest: "parse_records m q e k = Some rs0"
      and rs: "rs = (sint (m ! (p + 1)), load_bytes m (4 * (p + 2)) (nat n0)) # rs0"
      by (auto simp: Let_def n0_def q_def split: if_splits)
    have i1: "1 \<le> INTS n0" "n0 \<le> 4 * INTS n0" using INTS_ge[OF ok(1)] by simp_all
    have pe: "p < e" "p + 1 < e" using ok i1 by (simp_all add: q_def)
    have mp: "m' ! p = m ! p" "m' ! (p + 1) = m ! (p + 1)"
      using frame Suc.prems(2) pe by simp_all
    have lb: "load_bytes m' (4 * (p + 2)) (nat n0) = load_bytes m (4 * (p + 2)) (nat n0)"
    proof (rule load_bytes_cong)
      fix i assume a: "4 * (p + 2) div 4 \<le> i" "4 * i < 4 * (p + 2) + nat n0"
      then have "p0 \<le> i" using Suc.prems(2) by simp
      moreover have "i < e"
      proof -
        define a b where "a = nat n0" and "b = nat (INTS n0)"
        have "a \<le> 4 * b" unfolding a_def b_def using i1 ok by linarith
        moreover have "4 * i < 4 * (p + 2) + a" "p + 2 + b \<le> e"
          using a(2) ok(2) unfolding q_def a_def b_def by simp_all
        ultimately show ?thesis by simp
      qed
      ultimately show "m' ! i = m ! i" by (rule frame)
    qed
    have ih: "parse_records m' q e' (Suc k) = Some (rs0 @ [(dest, load_bytes m' (4 * (e + 2)) (nat n))])"
      using rest Suc.prems(2) by (intro Suc.IH) (simp_all add: q_def)
    have ne: "(p = e') = False" "(n0 < 0 \<or> e' < p + 2 + nat (INTS n0)) = False"
      using pe ok e' by (simp_all add: q_def)
    have np: "sint (m' ! p) = n0" by (simp add: mp n0_def)
    have "parse_records m' p e' (Suc (Suc k)) =
        map_option (Cons (sint (m ! (p + 1)), load_bytes m (4 * (p + 2)) (nat n0)))
          (parse_records m' (p + 2 + nat (INTS n0)) e' (Suc k))"
      by (simp only: parse_records.simps(2)[of m' p e' "Suc k"] mp n0_def[symmetric] Let_def ne
          if_False lb)
    then show ?thesis by (simp only: ih[unfolded q_def] rs) simp
  qed
qed


lemma length_appended [simp]: "length (appended icntr line mode) = length icntr"
  by (simp add: appended_def)

lemma GEwrite_appended:
  assumes cv: "control_vector icntr" and line: "strlen line < 2 ^ 31"
  shows "GEwrite W icntr line mode = Inr (debug_of W icntr line mode, appended icntr line mode)"
  using GEwrite_cv[OF cv line] by (simp add: appended_def)

lemma control_vector_appended:
  "control_vector icntr \<Longrightarrow> control_vector (appended icntr line mode)"
  by (simp add: appended_def control_vector_packed)

lemma appended_nth:
  assumes cv: "control_vector icntr" and i: "i < 28" "i \<noteq> 26"
  shows "appended icntr line mode ! i = icntr ! i"
proof (cases "0 < remainingWords icntr")
  case True
  have "int i < startMsg icntr - 2 \<and> i \<noteq> 26" using cvD(7)[OF cv] i by simp
  then have "packed icntr line mode ! i = icntr ! i"
    by (intro packed_nth_frame[OF cv True]) simp
  then show ?thesis using True by (simp add: appended_def)
next
  case False
  then show ?thesis by (simp add: appended_def)
qed

lemma appended_fld:
  assumes cv: "control_vector icntr" and i: "0 \<le> i" "i < 28" "i \<noteq> 26"
  shows "fld (appended icntr line mode) i = fld icntr i"
  using appended_nth[OF cv, of "nat i"] i by (simp add: fld_def)

lemma rd_fld:
  "control_vector icntr \<Longrightarrow> 0 \<le> i \<Longrightarrow> i < 28 \<Longrightarrow> rd icntr i = Inr (fld icntr i)"
  using cvD(1)[of icntr] by (simp add: fld_def)

lemma strlen_literal: "length s < 2 ^ 31 \<Longrightarrow> strlen s < 2 ^ 31"
  using strlen_le_length[of s] by simp

lemma records_packed:
  assumes cv: "control_vector icntr" and room: "0 < remainingWords icntr"
    and rs: "records icntr = Some rs"
    and mode: "- (2 ^ 31) \<le> mode" "mode < 2 ^ 31"
    and n: "n = stored_len (strlen line) (remainingWords icntr)"
  shows "records (packed icntr line mode) = Some (rs @ [(mode, take (nat n) line)])"
proof -
  note c = cvD[OF cv]
  note sb = stored_len_facts[OF room n]
  let ?m = "packed icntr line mode"
  define p where "p = nat (bufStrt icntr - 1)"
  define e where "e = nat (bufStrt icntr - 1 + bufLen icntr)"
  define k where "k = nat (bufLen icntr)"
  have e2: "e = nat (startMsg icntr - 2)" "e + 1 = nat (startMsg icntr - 1)"
     "4 * (e + 2) = nat (4 * startMsg icntr)"
    using c by (simp_all add: e_def startMsg_def)
  have old: "parse_records icntr p e k = Some rs"
    using rs by (simp add: records_def p_def e_def k_def)
  have frame: "?m ! i = icntr ! i" if "p \<le> i" "i < e" for i
  proof -
    have "int i < startMsg icntr - 2 \<and> i \<noteq> 26"
      using that c unfolding p_def e2 by linarith
    then show ?thesis by (intro packed_nth_frame[OF cv room]) simp
  qed
  have h1: "sint (?m ! e) = n" unfolding e2(1) by (rule packed_fields(1)[OF cv room n])
  have h2: "sint (?m ! (e + 1)) = mode"
    unfolding e2(2) by (rule packed_fields(2)[OF cv room n mode])
  have pl: "load_bytes ?m (4 * (e + 2)) (nat n) = take (nat n) line"
    unfolding e2(3) by (rule packed_fields(4)[OF cv room n])
  have app: "parse_records ?m p (e + 2 + nat (INTS n)) (Suc k) =
      Some (rs @ [(mode, load_bytes ?m (4 * (e + 2)) (nat n))])"
    by (rule parse_records_append[OF old frame h1 sb(1) h2 refl order_refl])
  have bs': "bufStrt ?m = bufStrt icntr"
    using packed_nth_frame[OF cv room, of 25 line mode] c by (simp add: bufStrt_def)
  have bl': "bufLen ?m = bufLen icntr + (2 + INTS n)" by (rule packed_fields(3)[OF cv room n])
  have e': "nat (bufStrt icntr - 1 + bufLen ?m) = e + 2 + nat (INTS n)"
    using c sb by (simp add: bl' e_def)
  have k': "Suc k \<le> nat (bufLen ?m)" using c sb by (simp add: bl' k_def)
  have "parse_records ?m p (e + 2 + nat (INTS n)) (nat (bufLen ?m)) =
      Some (rs @ [(mode, load_bytes ?m (4 * (e + 2)) (nat n))])"
    by (rule parse_records_fuel[OF app k'])
  then show ?thesis
    unfolding records_def[of ?m] bs' e' p_def[symmetric] by (simp only: pl)
qed

lemma records_appended:
  assumes cv: "control_vector icntr" and rs: "records icntr = Some rs"
    and mode: "- (2 ^ 31) \<le> mode" "mode < 2 ^ 31"
  shows "records (appended icntr line mode) =
     Some (if 0 < remainingWords icntr
           then rs @ [(mode, take (nat (stored_len (strlen line) (remainingWords icntr))) line)]
           else rs)"
  using records_packed[OF cv _ rs mode refl] rs by (simp add: appended_def)

lemma records_empty: "bufLen icntr = 0 \<Longrightarrow> records icntr = Some []"
  by (simp add: records_def)

section \<open>The evaluation dispatcher\<close>

lemma GElog_cv:
  "control_vector icntr \<Longrightarrow> length s < 2 ^ 31 \<Longrightarrow>
   GElog W icntr s = Inr (debug_of W icntr s TOLOG, appended icntr s TOLOG)"
  unfolding GElog_def using strlen_le_length[of s] by (intro GEwrite_appended) simp_all

lemma GEstat_cv:
  "control_vector icntr \<Longrightarrow> length s < 2 ^ 31 \<Longrightarrow>
   GEstat W icntr s = Inr (debug_of W icntr s TOSTAT, appended icntr s TOSTAT)"
  unfolding GEstat_def using strlen_le_length[of s] by (intro GEwrite_appended) simp_all

lemma rd_appended:
  assumes cv: "control_vector icntr" and i: "0 \<le> i" "i < 28" "i \<noteq> 26"
  shows "rd (appended icntr line mode) i = Inr (fld icntr i)"
  using rd_fld[OF control_vector_appended[OF cv] i(1,2), of line mode] appended_fld[OF cv i]
  by simp

lemma ld_in [simp]: "0 \<le> i \<Longrightarrow> i < int (length a) \<Longrightarrow> ld a i = Inr (a ! nat i)"
  by (simp add: ld_def)

lemma st_in [simp]: "0 \<le> i \<Longrightarrow> i < int (length a) \<Longrightarrow> st a i v = Inr (a[nat i := v])"
  by (simp add: st_def)

lemma gefunc_DOEVAL:
  assumes cv: "control_vector icntr" and mode: "fld icntr I_Mode = DOEVAL"
  shows "gefunc std_sin std_cos W icntr x f d = gefunc_eval std_sin std_cos W icntr x f d"
  unfolding gefunc_def using mode rd_fld[OF cv, of I_Mode]
  by (simp add: I_defs DOEVAL_def DOINIT_def DOTERM_def)

text \<open>
  Claim C7. For every Evaluate call on a control vector with equation index 1, "compute
  function" set and "compute derivatives" unset, and at least three variable values, the
  call returns status 0, the function value is \<open>sin (x[0]) - x[2]\<close>, and the derivative
  array is the one that came in. The control vector receives the log line of the call.
\<close>

theorem C7_function_only:
  assumes cv: "control_vector icntr" and mode: "fld icntr I_Mode = DOEVAL"
    and eq: "fld icntr I_Eqno = 1"
    and fn: "fld icntr I_Dofunc \<noteq> 0" and dv: "fld icntr I_Dodrv = 0"
    and x: "3 \<le> length x"
  shows "\<exists>r. gefunc std_sin std_cos W icntr x f d = Inr r \<and> rc_of r = 0 \<and>
      f_of r = std_sin (x ! 0) - x ! 2 \<and> d_of r = d \<and>
      GElog W icntr ''--- Evaluation mode'' = Inr (world_of r, icntr_of r)"
proof -
  have r: "rd (appended icntr ''--- Evaluation mode'' TOLOG) I_Eqno = Inr 1"
    "rd (appended icntr ''--- Evaluation mode'' TOLOG) I_Dofunc = Inr (fld icntr I_Dofunc)"
    "rd (appended icntr ''--- Evaluation mode'' TOLOG) I_Dodrv = Inr 0"
    using rd_appended[OF cv, of I_Eqno] rd_appended[OF cv, of I_Dofunc]
      rd_appended[OF cv, of I_Dodrv] eq dv
    by (simp_all add: I_defs)
  have ne: "x \<noteq> []" using x by auto
  show ?thesis
    unfolding gefunc_DOEVAL[OF cv mode] gefunc_eval_def
    using x fn ne by (simp add: GElog_cv[OF cv] r)
qed

lemma gefunc_eval_valid:
  assumes cv: "control_vector icntr" and mode: "fld icntr I_Mode = DOEVAL"
    and v: "valid_eqno icntr" and x: "length x = 4" and d: "length d = 4"
  shows "gefunc std_sin std_cos W icntr x f d =
     Inr \<lparr>world_of = debug_of W icntr ''--- Evaluation mode'' TOLOG,
          icntr_of = appended icntr ''--- Evaluation mode'' TOLOG,
          f_of = (if fld icntr I_Dofunc \<noteq> 0
                  then (if fld icntr I_Eqno = 1 then std_sin (x ! 0) - x ! 2
                        else std_cos (x ! 1) - x ! 3)
                  else f),
          d_of = (if fld icntr I_Dodrv \<noteq> 0
                  then (if fld icntr I_Eqno = 1 then d[0 := std_cos (x ! 0), 2 := - 1]
                        else d[1 := - std_sin (x ! 1), 3 := - 1])
                  else d),
          rc_of = 0\<rparr>"
proof -
  have r: "rd (appended icntr ''--- Evaluation mode'' TOLOG) I_Eqno = Inr (fld icntr I_Eqno)"
    "rd (appended icntr ''--- Evaluation mode'' TOLOG) I_Dofunc = Inr (fld icntr I_Dofunc)"
    "rd (appended icntr ''--- Evaluation mode'' TOLOG) I_Dodrv = Inr (fld icntr I_Dodrv)"
    using rd_appended[OF cv, of I_Eqno] rd_appended[OF cv, of I_Dofunc]
      rd_appended[OF cv, of I_Dodrv]
    by (simp_all add: I_defs)
  have ne: "x \<noteq> []" "d \<noteq> []" using x d by auto
  show ?thesis
    unfolding gefunc_DOEVAL[OF cv mode] gefunc_eval_def
    using v x d ne by (simp add: GElog_cv[OF cv] r valid_eqno_def)
qed

lemma gefunc_eval_invalid:
  assumes cv: "control_vector icntr" and mode: "fld icntr I_Mode = DOEVAL"
    and v: "\<not> valid_eqno icntr"
  shows "gefunc std_sin std_cos W icntr x f d =
     Inr \<lparr>world_of = debug_of (debug_of W icntr ''--- Evaluation mode'' TOLOG)
                        (appended icntr ''--- Evaluation mode'' TOLOG)
                        '' ** fIndex has unexpected value.'' TOSTAT,
          icntr_of = appended (appended icntr ''--- Evaluation mode'' TOLOG)
                        '' ** fIndex has unexpected value.'' TOSTAT,
          f_of = f, d_of = d, rc_of = 2\<rparr>"
proof -
  let ?ic1 = "appended icntr ''--- Evaluation mode'' TOLOG"
  have r: "rd ?ic1 I_Eqno = Inr (fld icntr I_Eqno)"
    "rd ?ic1 I_Dofunc = Inr (fld icntr I_Dofunc)"
    "rd ?ic1 I_Dodrv = Inr (fld icntr I_Dodrv)"
    using rd_appended[OF cv, of I_Eqno] rd_appended[OF cv, of I_Dofunc]
      rd_appended[OF cv, of I_Dodrv]
    by (simp_all add: I_defs)
  have cv1: "control_vector ?ic1" by (rule control_vector_appended[OF cv])
  show ?thesis
    unfolding gefunc_DOEVAL[OF cv mode] gefunc_eval_def
    using v by (auto simp add: GElog_cv[OF cv] GEstat_cv[OF cv1] r valid_eqno_def)
qed

text \<open>
  Claim C8. Two Evaluate calls on control vectors that agree on the equation index and
  the two flags, with the same four variable values, return the same status and store the
  same values: the function value is the same when one is stored, and the derivative
  array is the same at the positions stored to. What the calls do not store to keeps its
  incoming value, so calls that start from the same function value and derivative array
  end with the same. The debug sink, the buffer and the rest of the control vector may
  differ: nothing of an earlier call reaches the outputs.
\<close>

theorem C8_deterministic:
  assumes cv: "control_vector icntr1" "control_vector icntr2"
    and mode: "fld icntr1 I_Mode = DOEVAL" "fld icntr2 I_Mode = DOEVAL"
    and same: "fld icntr1 I_Eqno = fld icntr2 I_Eqno" "fld icntr1 I_Dofunc = fld icntr2 I_Dofunc"
      "fld icntr1 I_Dodrv = fld icntr2 I_Dodrv"
    and len: "length x = 4" "length d1 = 4" "length d2 = 4"
  shows "\<exists>r1 r2. gefunc std_sin std_cos W1 icntr1 x f1 d1 = Inr r1 \<and>
      gefunc std_sin std_cos W2 icntr2 x f2 d2 = Inr r2 \<and>
      rc_of r1 = rc_of r2 \<and>
      (if writes_f icntr1 then f_of r1 = f_of r2 else f_of r1 = f1 \<and> f_of r2 = f2) \<and>
      (\<forall>i<4. if i \<in> writes_d icntr1 then d_of r1 ! i = d_of r2 ! i
              else d_of r1 ! i = d1 ! i \<and> d_of r2 ! i = d2 ! i) \<and>
      (f1 = f2 \<and> d1 = d2 \<longrightarrow> f_of r1 = f_of r2 \<and> d_of r1 = d_of r2)"
proof (cases "valid_eqno icntr1")
  case True
  then have v2: "valid_eqno icntr2" using same by (simp add: valid_eqno_def)
  have four: "i < 4 \<longleftrightarrow> i = 0 \<or> i = 1 \<or> i = 2 \<or> i = 3" for i :: nat by auto
  show ?thesis
    unfolding gefunc_eval_valid[OF cv(1) mode(1) True len(1,2)]
      gefunc_eval_valid[OF cv(2) mode(2) v2 len(1,3)]
    using True len same[symmetric]
    by (auto simp add: writes_f_def writes_d_def four valid_eqno_def)
next
  case False
  then have v2: "\<not> valid_eqno icntr2" using same by (simp add: valid_eqno_def)
  show ?thesis
    unfolding gefunc_eval_invalid[OF cv(1) mode(1) False] gefunc_eval_invalid[OF cv(2) mode(2) v2]
    using False by (simp add: writes_f_def writes_d_def)
qed

lemma gefunc_DOCONSTDERIV:
  assumes cv: "control_vector icntr" and mode: "fld icntr I_Mode = DOCONSTDERIV"
  shows "gefunc std_sin std_cos W icntr x f d = gefunc_constderiv W icntr f d"
  unfolding gefunc_def using mode rd_fld[OF cv, of I_Mode]
  by (simp add: I_defs DOEVAL_def DOINIT_def DOTERM_def DOCONSTDERIV_def)

lemma gefunc_DOINIT:
  assumes cv: "control_vector icntr" and mode: "fld icntr I_Mode = DOINIT"
  shows "gefunc std_sin std_cos W icntr x f d = gefunc_init W icntr f d"
  unfolding gefunc_def using mode rd_fld[OF cv, of I_Mode]
  by (simp add: I_defs DOINIT_def)

text \<open>
  Claim C10, with the range the code has. A ConstantDerivative call on a control vector
  does not look at the range of the equation index: whatever the index, it stores \<open>- 1\<close> to
  \<open>d[index + 1]\<close> and returns status 0 when that position exists, and runs out of the array
  otherwise (for the largest \<open>int\<close> the sum overflows first). With four derivatives the
  store is inside the array exactly when \<open>- 1 \<le> index \<le> 2\<close>: for the equation indices 1 and
  2, and also for 0 and \<open>- 1\<close>, which are no equation indices. The Evaluate call answers
  those with status 2, see C4.
\<close>

theorem C10_constderiv_unchecked:
  assumes cv: "control_vector icntr" and mode: "fld icntr I_Mode = DOCONSTDERIV"
  shows "(\<exists>W1 ic1. GElog W icntr ''--- Constant derivative call'' = Inr (W1, ic1) \<and>
      gefunc std_sin std_cos W icntr x f d =
      (if fld icntr I_Eqno = 2 ^ 31 - 1 then Inl IntOverflow
       else if 0 \<le> fld icntr I_Eqno + 1 \<and> fld icntr I_Eqno + 1 < int (length d)
       then Inr \<lparr>world_of = W1, icntr_of = ic1,
                 f_of = f, d_of = d[nat (fld icntr I_Eqno + 1) := - 1], rc_of = 0\<rparr>
       else Inl OutOfBounds)) \<and>
     (length d = 4 \<longrightarrow>
        ((\<exists>r. gefunc std_sin std_cos W icntr x f d = Inr r) \<longleftrightarrow>
           - 1 \<le> fld icntr I_Eqno \<and> fld icntr I_Eqno \<le> 2))"
proof -
  let ?ic1 = "appended icntr ''--- Constant derivative call'' TOLOG"
  have r: "rd ?ic1 I_Eqno = Inr (fld icntr I_Eqno)"
    using rd_appended[OF cv, of I_Eqno] by (simp add: I_defs)
  have rng: "- (2 ^ 31) \<le> fld icntr I_Eqno" "fld icntr I_Eqno < 2 ^ 31"
    using sint_c_range[of "icntr ! nat I_Eqno"] by (simp_all add: fld_def)
  have g: "gefunc std_sin std_cos W icntr x f d =
      (if fld icntr I_Eqno = 2 ^ 31 - 1 then Inl IntOverflow
       else if 0 \<le> fld icntr I_Eqno + 1 \<and> fld icntr I_Eqno + 1 < int (length d)
       then Inr \<lparr>world_of = debug_of W icntr ''--- Constant derivative call'' TOLOG,
                 icntr_of = ?ic1,
                 f_of = f, d_of = d[nat (fld icntr I_Eqno + 1) := - 1], rc_of = 0\<rparr>
       else Inl OutOfBounds)"
    unfolding gefunc_DOCONSTDERIV[OF cv mode] gefunc_constderiv_def
    using rng by (auto simp add: GElog_cv[OF cv] r c_int_def st_def)
  show ?thesis unfolding g by (auto simp add: GElog_cv[OF cv])
qed

lemma parse_records_cong:
  "(\<And>i. p \<le> i \<Longrightarrow> m' ! i = m ! i) \<Longrightarrow> parse_records m' p e k = parse_records m p e k"
proof (induction k arbitrary: p)
  case 0
  then show ?case by simp
next
  case (Suc k)
  have a: "m' ! p = m ! p" "m' ! (p + 1) = m ! (p + 1)" using Suc.prems by simp_all
  have lb: "load_bytes m' (4 * (p + 2)) n = load_bytes m (4 * (p + 2)) n" for n
    by (rule load_bytes_cong) (simp add: Suc.prems)
  have ih: "parse_records m' (p + 2 + nat (INTS (sint (m ! p)))) e k =
      parse_records m (p + 2 + nat (INTS (sint (m ! p)))) e k"
    by (intro Suc.IH Suc.prems) simp
  show ?case by (simp only: parse_records.simps(2) a lb Let_def ih)
qed

lemma records_update_header:
  assumes cv: "control_vector m" and i: "i < 25"
  shows "records (m[i := v]) = records m"
proof -
  note c = cvD[OF cv]
  have f: "bufStrt (m[i := v]) = bufStrt m" "bufLen (m[i := v]) = bufLen m"
    using i by (simp_all add: bufStrt_def bufLen_def)
  have "parse_records (m[i := v]) (nat (bufStrt m - 1)) e k = parse_records m (nat (bufStrt m - 1)) e k"
    for e k
    using c i by (intro parse_records_cong) simp
  then show ?thesis by (simp add: records_def f)
qed

lemma stored_len_fits:
  assumes "n \<le> 256" "INTS (int n) \<le> r"
  shows "stored_len n r = int n"
  using assms by (simp add: stored_len_def)

lemma records_appended_fits:
  assumes cv: "control_vector icntr" and rs: "records icntr = Some rs"
    and mode: "- (2 ^ 31) \<le> mode" "mode < 2 ^ 31"
    and short: "strlen line \<le> 256" and fits: "INTS (int (strlen line)) \<le> remainingWords icntr"
  shows "records (appended icntr line mode) = Some (rs @ [(mode, cstr line)])"
    and "remainingWords (appended icntr line mode) =
         remainingWords icntr - (2 + INTS (int (strlen line)))"
proof -
  have room: "0 < remainingWords icntr" using fits INTS_ge[of "int (strlen line)"] by simp
  have n: "int (strlen line) = stored_len (strlen line) (remainingWords icntr)"
    using stored_len_fits[OF short fits] by simp
  have ap: "appended icntr line mode = packed icntr line mode" using room by (simp add: appended_def)
  show "records (appended icntr line mode) = Some (rs @ [(mode, cstr line)])"
    unfolding ap using records_packed[OF cv room rs mode n] by (simp add: cstr_take)
  have "packed icntr line mode ! 0 = icntr ! 0" "packed icntr line mode ! 25 = icntr ! 25"
    using cvD[OF cv] by (auto intro!: packed_nth_frame[OF cv room])
  then show "remainingWords (appended icntr line mode) =
         remainingWords icntr - (2 + INTS (int (strlen line)))"
    unfolding ap using packed_fields(3)[OF cv room n, of mode]
    by (simp add: remainingWords_def startMsg_def totLen_def bufStrt_def)
qed

lemma lit_strlen:
  "strlen ''--- Evaluation mode'' = 19" "cstr ''--- Evaluation mode'' = ''--- Evaluation mode''"
  "strlen '' ** fIndex has unexpected value.'' = 32"
  "cstr '' ** fIndex has unexpected value.'' = '' ** fIndex has unexpected value.''"
  by (simp_all add: strlen_def cstr_def NUL_def)

lemma INTS_lit: "INTS 19 = 5" "INTS 32 = 8"
  by (simp_all add: INTS_def c_div_def)

lemma tags_range: "- (2 ^ 31) \<le> TOLOG" "TOLOG < 2 ^ 31" "- (2 ^ 31) \<le> TOSTAT" "TOSTAT < 2 ^ 31"
  by (simp_all add: TOLOG_def TOSTAT_def)

lemma records_invalid_index:
  assumes cv: "control_vector icntr" and rs: "records icntr = Some rs"
    and room: "15 \<le> remainingWords icntr"
  shows "records (appended (appended icntr ''--- Evaluation mode'' TOLOG)
                    '' ** fIndex has unexpected value.'' TOSTAT) =
     Some (rs @ [(TOLOG, ''--- Evaluation mode''), (TOSTAT, '' ** fIndex has unexpected value.'')])"
proof -
  let ?ic1 = "appended icntr ''--- Evaluation mode'' TOLOG"
  have cv1: "control_vector ?ic1" by (rule control_vector_appended[OF cv])
  have f1: "INTS (int (strlen ''--- Evaluation mode'')) \<le> remainingWords icntr"
    using room by (simp add: lit_strlen INTS_lit)
  have s1: "strlen ''--- Evaluation mode'' \<le> 256" by (simp add: lit_strlen)
  have r1: "records ?ic1 = Some (rs @ [(TOLOG, ''--- Evaluation mode'')])"
    using records_appended_fits(1)[OF cv rs tags_range(1,2) s1 f1] by (simp add: lit_strlen)
  have w1: "remainingWords ?ic1 = remainingWords icntr - 7"
    using records_appended_fits(2)[OF cv rs tags_range(1,2) s1 f1] by (simp add: lit_strlen INTS_lit)
  have f2: "INTS (int (strlen '' ** fIndex has unexpected value.'')) \<le> remainingWords ?ic1"
    using room by (simp add: lit_strlen INTS_lit w1)
  have s2: "strlen '' ** fIndex has unexpected value.'' \<le> 256" by (simp add: lit_strlen)
  show ?thesis
    using records_appended_fits(1)[OF cv1 r1 tags_range(3,4) s2 f2] by (simp add: lit_strlen)
qed

text \<open>
  Claim C4, as the code has it. For every Evaluate call on a control vector with an
  equation index outside \<open>[1, 2]\<close>, the call returns status 2 and leaves the function value
  and the derivatives alone; it hands the line "--- Evaluation mode" to the log
  destination and then the diagnostic " ** fIndex has unexpected value." to the status
  destination only. When 15 words remain, both records are appended whole, and these are
  the only records appended.
\<close>

theorem C4_invalid_index:
  assumes cv: "control_vector icntr" and mode: "fld icntr I_Mode = DOEVAL"
    and bad: "fld icntr I_Eqno < 1 \<or> 2 < fld icntr I_Eqno"
  shows "\<exists>r. gefunc std_sin std_cos W icntr x f d = Inr r \<and> rc_of r = 2 \<and>
      f_of r = f \<and> d_of r = d \<and>
      (\<exists>W1 ic1. GElog W icntr ''--- Evaluation mode'' = Inr (W1, ic1) \<and>
         GEstat W1 ic1 '' ** fIndex has unexpected value.'' = Inr (world_of r, icntr_of r)) \<and>
      (\<forall>rs. records icntr = Some rs \<and> 15 \<le> remainingWords icntr \<longrightarrow>
         records (icntr_of r) =
           Some (rs @ [(TOLOG, ''--- Evaluation mode''),
                       (TOSTAT, '' ** fIndex has unexpected value.'')]))"
proof -
  have v: "\<not> valid_eqno icntr" using bad by (auto simp: valid_eqno_def)
  have cv1: "control_vector (appended icntr ''--- Evaluation mode'' TOLOG)"
    by (rule control_vector_appended[OF cv])
  show ?thesis
    unfolding gefunc_eval_invalid[OF cv mode v]
    using records_invalid_index[OF cv] by (simp add: GElog_cv[OF cv] GEstat_cv[OF cv1])
qed

lemma init_lit:
  "length (init_message icntr) < 2 ^ 31" "strlen (init_message icntr) \<le> 256"
  by (simp_all add: init_message_def strlen_def cstr_def NUL_def)

text \<open>
  Claim C6, as the code has it. For every Init call on a control vector, the status is 0
  if and only if the equation, variable and derivative counts are 2, 4 and 4, and 2
  otherwise; the call hands exactly one line, \<open>init_message\<close>, to the log destination, so
  that exactly one record is appended when at least one payload word remains, with as
  much of the line as fits, and none when no word remains; on a match the call also sets
  \<open>icntr[I_ConstDeriv]\<close> to 1.
\<close>

theorem C6_init:
  assumes cv: "control_vector icntr" and mode: "fld icntr I_Mode = DOINIT"
  shows "\<exists>r. gefunc std_sin std_cos W icntr x f d = Inr r \<and>
      (rc_of r = 0 \<longleftrightarrow> fld icntr I_Neq = 2 \<and> fld icntr I_Nvar = 4 \<and> fld icntr I_Nz = 4) \<and>
      (rc_of r = 0 \<or> rc_of r = 2) \<and> f_of r = f \<and> d_of r = d \<and>
      (\<exists>ic1. GElog W icntr (init_message icntr) = Inr (world_of r, ic1) \<and>
         icntr_of r = (if rc_of r = 0 then ic1[13 := 1] else ic1)) \<and>
      (rc_of r = 0 \<longrightarrow> fld (icntr_of r) I_ConstDeriv = 1) \<and>
      (\<forall>rs. records icntr = Some rs \<longrightarrow>
         records (icntr_of r) =
           Some (if 0 < remainingWords icntr
                 then rs @ [(TOLOG, take (nat (stored_len (strlen (init_message icntr))
                                                 (remainingWords icntr)))
                                      (init_message icntr))]
                 else rs))"
proof -
  let ?ic1 = "appended icntr (init_message icntr) TOLOG"
  note c = cvD[OF cv]
  have cv1: "control_vector ?ic1" by (rule control_vector_appended[OF cv])
  have r: "rd icntr I_Neq = Inr (fld icntr I_Neq)" "rd icntr I_Nvar = Inr (fld icntr I_Nvar)"
    "rd icntr I_Nz = Inr (fld icntr I_Nz)"
    using rd_fld[OF cv, of I_Neq] rd_fld[OF cv, of I_Nvar] rd_fld[OF cv, of I_Nz]
    by (simp_all add: I_defs)
  have w: "wr (appended icntr s TOLOG) I_ConstDeriv 1 = Inr ((appended icntr s TOLOG)[13 := 1])" for s
    using c by (simp add: I_defs)
  have rec1: "records ?ic1 =
      Some (if 0 < remainingWords icntr
            then rs @ [(TOLOG, take (nat (stored_len (strlen (init_message icntr))
                                            (remainingWords icntr))) (init_message icntr))]
            else rs)" if "records icntr = Some rs" for rs
    by (rule records_appended[OF cv that tags_range(1,2)])
  have gl: "GElog W icntr (init_message icntr) =
      Inr (debug_of W icntr (init_message icntr) TOLOG, ?ic1)"
    by (rule GElog_cv[OF cv init_lit(1)])
  have rec2: "records (?ic1[13 := 1]) = records ?ic1"
    by (rule records_update_header[OF cv1]) simp
  have flag: "fld (?ic1[13 := 1]) I_ConstDeriv = 1"
    using c by (simp add: fld_def I_defs)
  consider (neq) "fld icntr I_Neq \<noteq> 2"
    | (nvar) "fld icntr I_Neq = 2" "fld icntr I_Nvar \<noteq> 4"
    | (nz) "fld icntr I_Neq = 2" "fld icntr I_Nvar = 4" "fld icntr I_Nz \<noteq> 4"
    | (ok) "fld icntr I_Neq = 2" "fld icntr I_Nvar = 4" "fld icntr I_Nz = 4"
    by blast
  then show ?thesis
  proof cases
    case neq
    then have m: "init_message icntr = ''--- Number of equations do not match''"
      by (simp add: init_message_def)
    have "gefunc std_sin std_cos W icntr x f d =
      Inr \<lparr>world_of = debug_of W icntr (init_message icntr) TOLOG, icntr_of = ?ic1,
           f_of = f, d_of = d, rc_of = 2\<rparr>"
      unfolding gefunc_DOINIT[OF cv mode] gefunc_init_def m using neq
      by (simp add: r GElog_cv[OF cv])
    then show ?thesis using neq rec1 by (simp add: gl)
  next
    case nvar
    then have m: "init_message icntr = ''--- Number of variables do not match''"
      by (simp add: init_message_def)
    have "gefunc std_sin std_cos W icntr x f d =
      Inr \<lparr>world_of = debug_of W icntr (init_message icntr) TOLOG, icntr_of = ?ic1,
           f_of = f, d_of = d, rc_of = 2\<rparr>"
      unfolding gefunc_DOINIT[OF cv mode] gefunc_init_def m using nvar
      by (simp add: r GElog_cv[OF cv])
    then show ?thesis using nvar rec1 by (simp add: gl)
  next
    case nz
    then have m: "init_message icntr = ''--- Number of differentibles do not match''"
      by (simp add: init_message_def)
    have "gefunc std_sin std_cos W icntr x f d =
      Inr \<lparr>world_of = debug_of W icntr (init_message icntr) TOLOG, icntr_of = ?ic1,
           f_of = f, d_of = d, rc_of = 2\<rparr>"
      unfolding gefunc_DOINIT[OF cv mode] gefunc_init_def m using nz
      by (simp add: r GElog_cv[OF cv])
    then show ?thesis using nz rec1 by (simp add: gl)
  next
    case ok
    then have m: "init_message icntr = ''--- Model has the correct size.''"
      by (simp add: init_message_def)
    have "gefunc std_sin std_cos W icntr x f d =
      Inr \<lparr>world_of = debug_of W icntr (init_message icntr) TOLOG, icntr_of = ?ic1[13 := 1],
           f_of = f, d_of = d, rc_of = 0\<rparr>"
      unfolding gefunc_DOINIT[OF cv mode] gefunc_init_def m using ok
      by (simp add: r GElog_cv[OF cv] w)
    then show ?thesis using ok rec1 rec2 flag by (simp add: gl)
  qed
qed

section \<open>Example calls of the dispatcher\<close>

theorem C7_function_only_witness:
  "control_vector (icntr64[4 := 3, 5 := 1, 6 := 1]) \<and>
   fld (icntr64[4 := 3, 5 := 1, 6 := 1]) I_Mode = DOEVAL \<and>
   fld (icntr64[4 := 3, 5 := 1, 6 := 1]) I_Eqno = 1 \<and>
   fld (icntr64[4 := 3, 5 := 1, 6 := 1]) I_Dofunc \<noteq> 0 \<and>
   fld (icntr64[4 := 3, 5 := 1, 6 := 1]) I_Dodrv = 0 \<and>
   (\<exists>r. gefunc (\<lambda>v. v + 1) (\<lambda>v. v + 2) W0 (icntr64[4 := 3, 5 := 1, 6 := 1])
           [10, 20, 30, 40] (0 :: int) [7, 7, 7, 7] = Inr r \<and>
        rc_of r = 0 \<and> f_of r = - 19 \<and> d_of r = [7, 7, 7, 7])"
proof -
  let ?v = "icntr64[4 := 3, 5 := 1, 6 := 1]"
  have h: "control_vector ?v" "fld ?v I_Mode = DOEVAL" "fld ?v I_Eqno = 1"
    "fld ?v I_Dofunc \<noteq> 0" "fld ?v I_Dodrv = 0" "3 \<le> length [10, 20, 30, 40 :: int]"
    by code_simp+
  show ?thesis
    using h(1-5) C7_function_only[OF h, of "\<lambda>v. v + 1" "\<lambda>v. v + 2" W0 0 "[7, 7, 7, 7]"]
    by auto
qed

theorem C8_deterministic_witness:
  "control_vector (icntr64[4 := 3, 5 := 2, 6 := 1, 7 := 1]) \<and>
   control_vector (icntr32[4 := 3, 5 := 2, 6 := 1, 7 := 1, 27 := 1]) \<and>
   (\<exists>r1 r2.
      gefunc (\<lambda>v. v + 1) (\<lambda>v. v + 2) W0 (icntr64[4 := 3, 5 := 2, 6 := 1, 7 := 1])
        [10, 20, 30, 40] (0 :: int) [7, 7, 7, 7] = Inr r1 \<and>
      gefunc (\<lambda>v. v + 1) (\<lambda>v. v + 2) (W0\<lparr>fopen_ok := False\<rparr>)
        (icntr32[4 := 3, 5 := 2, 6 := 1, 7 := 1, 27 := 1])
        [10, 20, 30, 40] 5 [8, 8, 8, 8] = Inr r2 \<and>
      rc_of r1 = rc_of r2 \<and> f_of r1 = f_of r2 \<and>
      d_of r1 ! 1 = d_of r2 ! 1 \<and> d_of r1 ! 3 = d_of r2 ! 3 \<and>
      d_of r1 ! 0 = 7 \<and> d_of r2 ! 0 = 8)"
proof -
  let ?v1 = "icntr64[4 := 3, 5 := 2, 6 := 1, 7 := 1]"
  let ?v2 = "icntr32[4 := 3, 5 := 2, 6 := 1, 7 := 1, 27 := 1]"
  have cv: "control_vector ?v1" "control_vector ?v2" by code_simp+
  have mode: "fld ?v1 I_Mode = DOEVAL" "fld ?v2 I_Mode = DOEVAL" by code_simp+
  have same: "fld ?v1 I_Eqno = fld ?v2 I_Eqno" "fld ?v1 I_Dofunc = fld ?v2 I_Dofunc"
    "fld ?v1 I_Dodrv = fld ?v2 I_Dodrv" by code_simp+
  have len: "length [10, 20, 30, 40 :: int] = 4" "length [7, 7, 7, 7 :: int] = 4"
    "length [8, 8, 8, 8 :: int] = 4" by simp_all
  have w: "writes_f ?v1" "writes_d ?v1 = {1, 3}" by code_simp+
  show ?thesis
    using cv C8_deterministic[OF cv mode same len, of "\<lambda>v. v + 1" "\<lambda>v. v + 2" W0 0
        "W0\<lparr>fopen_ok := False\<rparr>" 5]
    by (auto simp add: w)
qed

theorem C10_constderiv_unchecked_witness:
  "control_vector (icntr64[4 := 4, 5 := 2]) \<and> fld (icntr64[4 := 4, 5 := 2]) I_Mode = DOCONSTDERIV \<and>
   fld (icntr64[4 := 4, 5 := 2]) I_Eqno = 2 \<and>
   (\<exists>r. gefunc (\<lambda>v. v + 1) (\<lambda>v. v + 2) W0 (icntr64[4 := 4, 5 := 2]) [10, 20, 30, 40]
          (0 :: int) [7, 7, 7, 7] = Inr r \<and> rc_of r = 0 \<and> d_of r = [7, 7, 7, - 1]) \<and>
   control_vector (icntr64[4 := 4, 5 := 3]) \<and> fld (icntr64[4 := 4, 5 := 3]) I_Mode = DOCONSTDERIV \<and>
   fld (icntr64[4 := 4, 5 := 3]) I_Eqno = 3 \<and> length [7, 7, 7, 7 :: int] = 4 \<and>
   gefunc (\<lambda>v. v + 1) (\<lambda>v. v + 2) W0 (icntr64[4 := 4, 5 := 3]) [10, 20, 30, 40]
          (0 :: int) [7, 7, 7, 7] = Inl OutOfBounds \<and>
   control_vector icntr_cd0 \<and> fld icntr_cd0 I_Mode = DOCONSTDERIV \<and>
   fld icntr_cd0 I_Eqno = 0 \<and>
   (\<exists>r. gefunc (\<lambda>v. v + 1) (\<lambda>v. v + 2) W0 icntr_cd0 [10, 20, 30, 40]
          (0 :: int) [7, 7, 7, 7] = Inr r \<and> rc_of r = 0 \<and> d_of r = [7, - 1, 7, 7])"
proof -
  let ?v = "icntr64[4 := 4, 5 := 2]"
  let ?u = "icntr64[4 := 4, 5 := 3]"
  have h: "control_vector ?v" "fld ?v I_Mode = DOCONSTDERIV" by code_simp+
  have k: "control_vector ?u" "fld ?u I_Mode = DOCONSTDERIV" by code_simp+
  have z: "control_vector icntr_cd0" "fld icntr_cd0 I_Mode = DOCONSTDERIV" by code_simp+
  have e: "fld ?v I_Eqno = 2" "fld ?u I_Eqno = 3" "fld icntr_cd0 I_Eqno = 0" by code_simp+
  show ?thesis
    using h k z e
      C10_constderiv_unchecked[OF h, where W = W0 and std_sin = "\<lambda>v. v + 1"
        and std_cos = "\<lambda>v. v + 2" and x = "[10, 20, 30, 40 :: int]" and f = 0
        and d = "[7, 7, 7, 7]"]
      C10_constderiv_unchecked[OF k, where W = W0 and std_sin = "\<lambda>v. v + 1"
        and std_cos = "\<lambda>v. v + 2" and x = "[10, 20, 30, 40 :: int]" and f = 0
        and d = "[7, 7, 7, 7]"]
      C10_constderiv_unchecked[OF z, where W = W0 and std_sin = "\<lambda>v. v + 1"
        and std_cos = "\<lambda>v. v + 2" and x = "[10, 20, 30, 40 :: int]" and f = 0
        and d = "[7, 7, 7, 7]"]
    by auto
qed

text \<open>
  The equation index 0 is neither 1 nor 2, and the store still goes inside the array of
  four derivatives, to \<open>d[1]\<close>, with status 0.
\<close>

theorem C10_counterexample:
  "control_vector icntr_cd0 \<and> fld icntr_cd0 I_Mode = DOCONSTDERIV \<and>
   fld icntr_cd0 I_Eqno = 0 \<and>
   gefunc (\<lambda>v. v + 1) (\<lambda>v. v + 2) W0 icntr_cd0 [10, 20, 30, 40] (0 :: int) [7, 7, 7, 7] =
     Inr \<lparr>world_of = W0,
          icntr_of = (store_bytes icntr_cd0 124 ''--- Constant derivative call'')
                       [29 := 28, 30 := 2, 26 := 9],
          f_of = 0, d_of = [7, - 1, 7, 7], rc_of = 0\<rparr>"
  by code_simp

theorem C4_invalid_index_witness:
  "control_vector (icntr64[4 := 3, 5 := 3]) \<and> fld (icntr64[4 := 3, 5 := 3]) I_Mode = DOEVAL \<and>
   2 < fld (icntr64[4 := 3, 5 := 3]) I_Eqno \<and>
   records (icntr64[4 := 3, 5 := 3]) = Some [] \<and> 15 \<le> remainingWords (icntr64[4 := 3, 5 := 3]) \<and>
   (\<exists>r. gefunc (\<lambda>v. v + 1) (\<lambda>v. v + 2) W0 (icntr64[4 := 3, 5 := 3]) [10, 20, 30, 40]
          (0 :: int) [7, 7, 7, 7] = Inr r \<and> rc_of r = 2 \<and>
        records (icntr_of r) =
          Some [(TOLOG, ''--- Evaluation mode''), (TOSTAT, '' ** fIndex has unexpected value.'')])"
proof -
  let ?v = "icntr64[4 := 3, 5 := 3]"
  have h: "control_vector ?v" "fld ?v I_Mode = DOEVAL" by code_simp+
  have b: "2 < fld ?v I_Eqno" by code_simp
  have bad: "fld ?v I_Eqno < 1 \<or> 2 < fld ?v I_Eqno" using b by simp
  have bl: "bufLen ?v = 0" by code_simp
  have rs: "records ?v = Some []" by (rule records_empty[OF bl])
  have room: "15 \<le> remainingWords ?v" by code_simp
  show ?thesis
    using h b rs room
      C4_invalid_index[OF h bad, of "\<lambda>v. v + 1" "\<lambda>v. v + 2" W0 "[10, 20, 30, 40 :: int]" 0 "[7, 7, 7, 7]"]
    by auto
qed

text \<open>
  An Evaluate call with equation index 0 on an empty buffer of 33 remaining words. The
  call leaves two records: 19 bytes for destination 2 (log) in words 29 to 35, and 32
  bytes for destination 1 (status) in words 36 to 45; 17 words are consumed. The buffer
  holds the log line of the call and the diagnostic for the status destination; no record
  for the log destination carries the diagnostic.
\<close>

theorem C4_counterexample:
  "control_vector icntr_index0 \<and> fld icntr_index0 I_Mode = DOEVAL \<and>
   fld icntr_index0 I_Eqno = 0 \<and> records icntr_index0 = Some [] \<and>
   gefunc (\<lambda>v. v + 1) (\<lambda>v. v + 2) W0 icntr_index0 [10, 20, 30, 40] (0 :: int)
       [7, 7, 7, 7] =
     Inr \<lparr>world_of = W0,
          icntr_of = (store_bytes (store_bytes icntr_index0 124 ''--- Evaluation mode'') 152
                        '' ** fIndex has unexpected value.'')
                       [29 := 19, 30 := 2, 36 := 32, 37 := 1, 26 := 17],
          f_of = 0, d_of = [7, 7, 7, 7], rc_of = 2\<rparr> \<and>
   records ((store_bytes (store_bytes icntr_index0 124 ''--- Evaluation mode'') 152
               '' ** fIndex has unexpected value.'')
              [29 := 19, 30 := 2, 36 := 32, 37 := 1, 26 := 17]) =
     Some [(TOLOG, ''--- Evaluation mode''), (TOSTAT, '' ** fIndex has unexpected value.'')] \<and>
   (TOLOG, '' ** fIndex has unexpected value.'') \<notin>
     set [(TOLOG, ''--- Evaluation mode''), (TOSTAT, '' ** fIndex has unexpected value.'')]"
proof -
  let ?v = "icntr_index0"
  let ?v1 = "appended ?v ''--- Evaluation mode'' TOLOG"
  have h: "control_vector ?v" "fld ?v I_Mode = DOEVAL" by code_simp+
  have e: "fld ?v I_Eqno = 0" by code_simp
  have nv: "\<not> valid_eqno ?v" using e by (simp add: valid_eqno_def)
  have bl: "bufLen ?v = 0" by code_simp
  have rs: "records ?v = Some []" by (rule records_empty[OF bl])
  have room: "15 \<le> remainingWords ?v" by code_simp
  have d0: "sint (?v ! 27) = 0" by code_simp
  have "?v1 ! 27 = ?v ! 27" by (rule appended_nth[OF h(1)]) simp_all
  then have d1: "sint (?v1 ! 27) = 0" by (simp only: d0)
  have w0: "debug_of W0 ?v ''--- Evaluation mode'' TOLOG = W0"
    by (simp only: debug_of_def d0) simp
  have w: "debug_of (debug_of W0 ?v ''--- Evaluation mode'' TOLOG) ?v1
             '' ** fIndex has unexpected value.'' TOSTAT = W0"
    by (simp only: debug_of_def d0 d1) simp
  have t: "TOLOG \<noteq> TOSTAT" by (simp add: TOLOG_def TOSTAT_def)
  have ex: "appended ?v1 '' ** fIndex has unexpected value.'' TOSTAT =
      (store_bytes (store_bytes icntr_index0 124 ''--- Evaluation mode'') 152
         '' ** fIndex has unexpected value.'')[29 := 19, 30 := 2, 36 := 32, 37 := 1, 26 := 17]"
    by code_simp
  show ?thesis
    unfolding ex[symmetric]
    using h e rs records_invalid_index[OF h(1) rs room]
      gefunc_eval_invalid[OF h nv, of "\<lambda>v. v + 1" "\<lambda>v. v + 2" W0 "[10, 20, 30, 40 :: int]" 0 "[7, 7, 7, 7]"]
    by (simp add: w t)
qed

theorem C6_init_witness:
  "control_vector icntr_mismatch \<and> fld icntr_mismatch I_Mode = DOINIT \<and>
   records icntr_mismatch = Some [] \<and>
   (\<exists>r. gefunc (\<lambda>v. v + 1) (\<lambda>v. v + 2) W0 icntr_mismatch [10, 20, 30, 40]
          (0 :: int) [7, 7, 7, 7] = Inr r \<and> rc_of r = 2 \<and>
        records (icntr_of r) = Some [(TOLOG, ''--- Number of equations do not match'')]) \<and>
   control_vector icntr_match \<and> fld icntr_match I_Mode = DOINIT \<and>
   records icntr_match = Some [] \<and>
   (\<exists>r. gefunc (\<lambda>v. v + 1) (\<lambda>v. v + 2) W0 icntr_match
          [10, 20, 30, 40] (0 :: int) [7, 7, 7, 7] = Inr r \<and> rc_of r = 0 \<and>
        fld (icntr_of r) I_ConstDeriv = 1 \<and>
        records (icntr_of r) = Some [(TOLOG, ''--- Model has the correct size.'')])"
proof -
  let ?v = "icntr_mismatch"
  let ?u = "icntr_match"
  have h: "control_vector ?v" "fld ?v I_Mode = DOINIT" by code_simp+
  have k: "control_vector ?u" "fld ?u I_Mode = DOINIT" by code_simp+
  have bl: "bufLen ?v = 0" "bufLen ?u = 0" by code_simp+
  have rs: "records ?v = Some []" "records ?u = Some []" using bl by (simp_all add: records_empty)
  have room: "remainingWords ?v = 33" "remainingWords ?u = 33" by code_simp+
  have f: "fld ?v I_Neq = 3" "fld ?u I_Neq = 2" "fld ?u I_Nvar = 4" "fld ?u I_Nz = 4" by code_simp+
  have m: "init_message ?v = ''--- Number of equations do not match''"
    "init_message ?u = ''--- Model has the correct size.''"
    by (simp_all add: init_message_def f)
  have s: "stored_len (strlen ''--- Number of equations do not match'') 33 = 36"
    "stored_len (strlen ''--- Model has the correct size.'') 33 = 31"
    by (simp_all add: stored_len_def strlen_def cstr_def NUL_def INTS_def c_div_def)
  show ?thesis
    using h k rs
      C6_init[OF h, of "\<lambda>v. v + 1" "\<lambda>v. v + 2" W0 "[10, 20, 30, 40 :: int]" 0 "[7, 7, 7, 7]"]
      C6_init[OF k, of "\<lambda>v. v + 1" "\<lambda>v. v + 2" W0 "[10, 20, 30, 40 :: int]" 0 "[7, 7, 7, 7]"]
    by (auto simp add: room f m s)
qed

text \<open>
  An Init call with 3 equations declared, on a buffer with no payload word left: status 2
  and no record.
\<close>

theorem C6_counterexample:
  "control_vector icntr_full \<and> fld icntr_full I_Mode = DOINIT \<and> fld icntr_full I_Neq \<noteq> 2 \<and>
   remainingWords icntr_full = 0 \<and>
   gefunc (\<lambda>v. v + 1) (\<lambda>v. v + 2) W0 icntr_full [10, 20, 30, 40] (0 :: int) [7, 7, 7, 7] =
     Inr \<lparr>world_of = W0, icntr_of = icntr_full, f_of = 0, d_of = [7, 7, 7, 7], rc_of = 2\<rparr> \<and>
   records icntr_full = Some []"
  by code_simp

end
